theory Spec2Isabelle
  imports Complex_Main
begin

section \<open>The efsmi detector: text of the diagnostic tool to device records\<close>

text \<open>
  The theory embeds \<^verbatim>\<open>src/gpustack/detectors/efsmi/efsmi.py\<close>: the command runner
  \<^verbatim>\<open>_run_command\<close>, the section parser \<^verbatim>\<open>_get_gpu_info\<close> and the record assembler
  \<^verbatim>\<open>_gather_gpu_info\<close>. Python identifiers that start with an underscore lose it here.

  A Python \<^verbatim>\<open>str\<close> is a sequence of code points. A \<open>string\<close> of this theory is read as
  a sequence of code points below 256, one \<open>char\<close> each; the character classes below
  are the interpreter's classes on that range.
\<close>

subsection \<open>Character classes of the interpreter\<close>

definition is_space :: "char \<Rightarrow> bool" where
  \<comment> \<open>\<^verbatim>\<open>str.isspace\<close>, and \<^verbatim>\<open>\s\<close> of the \<^verbatim>\<open>re\<close> module on \<^verbatim>\<open>str\<close> patterns\<close>
  "is_space c =
     (let n = (of_char c :: int)
      in (9 \<le> n \<and> n \<le> 13) \<or> (28 \<le> n \<and> n \<le> 32) \<or> n = 133 \<or> n = 160)"

definition is_digit :: "char \<Rightarrow> bool" where
  \<comment> \<open>\<^verbatim>\<open>\d\<close>: the decimal digits\<close>
  "is_digit c = (let n = (of_char c :: int) in 48 \<le> n \<and> n \<le> 57)"

definition is_word :: "char \<Rightarrow> bool" where
  \<comment> \<open>\<^verbatim>\<open>\w\<close>: \<^verbatim>\<open>str.isalnum\<close> or the underscore\<close>
  "is_word c =
     (let n = (of_char c :: int)
      in (48 \<le> n \<and> n \<le> 57) \<or> (65 \<le> n \<and> n \<le> 90) \<or> n = 95 \<or> (97 \<le> n \<and> n \<le> 122)
         \<or> n = 170 \<or> n = 178 \<or> n = 179 \<or> n = 181 \<or> n = 185 \<or> n = 186
         \<or> (188 \<le> n \<and> n \<le> 190) \<or> (192 \<le> n \<and> n \<le> 214) \<or> (216 \<le> n \<and> n \<le> 246)
         \<or> 248 \<le> n)"

definition is_linebreak :: "char \<Rightarrow> bool" where
  \<comment> \<open>the line boundaries of \<^verbatim>\<open>str.splitlines\<close>\<close>
  "is_linebreak c =
     (let n = (of_char c :: int) in (10 \<le> n \<and> n \<le> 13) \<or> (28 \<le> n \<and> n \<le> 30) \<or> n = 133)"

definition char_lower :: "char \<Rightarrow> char" where
  "char_lower c =
     (let n = (of_char c :: int)
      in if (65 \<le> n \<and> n \<le> 90) \<or> (192 \<le> n \<and> n \<le> 222 \<and> n \<noteq> 215)
         then char_of (n + 32) else c)"

subsection \<open>String methods\<close>

definition str_lower :: "string \<Rightarrow> string" where
  "str_lower s = map char_lower s"

definition startswith :: "string \<Rightarrow> string \<Rightarrow> bool" where
  "startswith s p = (take (length p) s = p)"

definition endswith :: "string \<Rightarrow> string \<Rightarrow> bool" where
  "endswith s p = (length p \<le> length s \<and> drop (length s - length p) s = p)"

fun str_contains :: "string \<Rightarrow> string \<Rightarrow> bool" where
  \<comment> \<open>\<^verbatim>\<open>p in s\<close>\<close>
  "str_contains [] p = (p = [])"
| "str_contains (c # s) p = (startswith (c # s) p \<or> str_contains s p)"

definition str_strip :: "string \<Rightarrow> string" where
  "str_strip s = rev (dropWhile is_space (rev (dropWhile is_space s)))"

definition str_replace_space :: "string \<Rightarrow> string" where
  \<comment> \<open>\<^verbatim>\<open>s.replace(" ", "_")\<close>\<close>
  "str_replace_space s = map (\<lambda>c. if c = CHR '' '' then CHR ''_'' else c) s"

fun split_from :: "string \<Rightarrow> string \<Rightarrow> string list" where
  "split_from cur [] = (if cur = [] then [] else [cur])"
| "split_from cur (c # s) =
     (if is_space c then (if cur = [] then split_from [] s else cur # split_from [] s)
      else split_from (cur @ [c]) s)"

definition str_split :: "string \<Rightarrow> string list" where
  \<comment> \<open>\<^verbatim>\<open>s.split()\<close>: the maximal runs of characters that are not whitespace\<close>
  "str_split s = split_from [] s"

fun splitlines_from :: "bool \<Rightarrow> string \<Rightarrow> string \<Rightarrow> string list" where
  \<comment> \<open>the flag says that the previous character was a carriage return, so that a line
      feed right after it belongs to the same line boundary\<close>
  "splitlines_from after_cr cur [] = (if cur = [] then [] else [cur])"
| "splitlines_from after_cr cur (c # s) =
     (if after_cr \<and> c = CHR 0x0A then splitlines_from False cur s
      else if is_linebreak c then cur # splitlines_from (c = CHR 0x0D) [] s
      else splitlines_from False (cur @ [c]) s)"

definition splitlines :: "string \<Rightarrow> string list" where
  "splitlines s = splitlines_from False [] s"

subsection \<open>Values and errors\<close>

datatype pyfloat = Finite rat | Infinite bool | NaN

datatype pyval = VStr string | VInt int | VFloat pyfloat

datatype error =
    Exception string
  | KeyError pyval
  | IndexError
  | ValueError string
  | AttributeError

fun then_do :: "error + 'a \<Rightarrow> ('a \<Rightarrow> error + 'b) \<Rightarrow> error + 'b" where
  "then_do (Inl e) f = Inl e"
| "then_do (Inr x) f = f x"

subsection \<open>Formatting\<close>

definition digit_char :: "nat \<Rightarrow> char" where
  "digit_char d = ''0123456789'' ! d"

function str_digits :: "int \<Rightarrow> string" where
  \<comment> \<open>the decimal digits of a number that is not negative\<close>
  "str_digits n =
     (if n < 10 then [digit_char (nat n)]
      else str_digits (n div 10) @ [digit_char (nat (n mod 10))])"
  by pat_completeness auto
termination
  by (relation "measure nat") auto

definition str_int :: "int \<Rightarrow> string" where
  "str_int i = (if i < 0 then CHR ''-'' # str_digits (- i) else str_digits i)"

definition is_printable :: "char \<Rightarrow> bool" where
  \<comment> \<open>\<^verbatim>\<open>str.isprintable\<close>\<close>
  "is_printable c =
     (let n = (of_char c :: int)
      in \<not> (n < 32 \<or> (127 \<le> n \<and> n \<le> 160) \<or> n = 173))"

definition hex_char :: "int \<Rightarrow> char" where
  "hex_char d = ''0123456789abcdef'' ! nat d"

definition repr_char :: "char \<Rightarrow> char \<Rightarrow> string" where
  "repr_char quote c =
     (if c = quote \<or> c = CHR 0x5C then [CHR 0x5C, c]
      else if c = CHR 0x09 then [CHR 0x5C, CHR ''t'']
      else if c = CHR 0x0A then [CHR 0x5C, CHR ''n'']
      else if c = CHR 0x0D then [CHR 0x5C, CHR ''r'']
      else if is_printable c then [c]
      else [CHR 0x5C, CHR ''x'', hex_char (of_char c div 16), hex_char (of_char c mod 16)])"

definition repr_str :: "string \<Rightarrow> string" where
  \<comment> \<open>\<^verbatim>\<open>repr\<close> of a \<^verbatim>\<open>str\<close>: double quotes only when the text has a single quote and no
      double quote\<close>
  "repr_str s =
     (let quote = (if CHR 0x27 \<in> set s \<and> CHR 0x22 \<notin> set s then CHR 0x22 else CHR 0x27)
      in quote # concat (map (repr_char quote) s) @ [quote])"

fun join_comma :: "string list \<Rightarrow> string" where
  "join_comma [] = []"
| "join_comma [x] = x"
| "join_comma (x # y # xs) = x @ '', '' @ join_comma (y # xs)"

definition str_list :: "string list \<Rightarrow> string" where
  \<comment> \<open>what an f-string makes of a list of strings\<close>
  "str_list xs = ''['' @ join_comma (map repr_str xs) @ '']''"

definition str_opt :: "string option \<Rightarrow> string" where
  \<comment> \<open>what an f-string makes of a \<^verbatim>\<open>str\<close> or of \<^verbatim>\<open>None\<close>\<close>
  "str_opt x = (case x of None \<Rightarrow> ''None'' | Some s \<Rightarrow> s)"

subsection \<open>The command runner\<close>

record completed_process =
  returncode :: int
  stdout :: "string option"
  stderr :: "string option"

text \<open>
  \<^verbatim>\<open>subprocess.run\<close> is the environment: for a command it either raises (the text of
  the exception is kept) or returns a completed process. It never returns \<^verbatim>\<open>None\<close>, so
  the test \<^verbatim>\<open>result is None\<close> of the source has no branch here.
\<close>

type_synonym subprocess_run = "string list \<Rightarrow> string + completed_process"

definition failed_to_execute :: "string list \<Rightarrow> string \<Rightarrow> completed_process option \<Rightarrow> error" where
  \<comment> \<open>the \<^verbatim>\<open>except Exception as e\<close> handler; a completed process is always truthy\<close>
  "failed_to_execute command e result =
     Exception (''Failed to execute '' @ str_list command @ '': '' @ e @
       (case result of
          None \<Rightarrow> []
        | Some r \<Rightarrow> '', stdout: '' @ str_opt (stdout r) @ '', stderr: '' @ str_opt (stderr r)))"

definition run_command :: "subprocess_run \<Rightarrow> string list \<Rightarrow> error + string option" where
  "run_command run command =
     (case run command of
        Inl e \<Rightarrow> Inl (failed_to_execute command e None)
      | Inr result \<Rightarrow>
          (case stdout result of
             None \<Rightarrow> Inr None
           | Some output \<Rightarrow>
               if str_contains (str_lower output) ''no devices'' then Inr None
               else if returncode result \<noteq> 0 then
                 Inl (failed_to_execute command
                        (''Unexpected return code: '' @ str_int (returncode result)) (Some result))
               else if output = [] then
                 Inl (failed_to_execute command
                        (''Output is empty, return code: '' @ str_int (returncode result)) (Some result))
               else Inr (Some output)))"

subsection \<open>Numbers from text\<close>

fun digit_groups :: "string \<Rightarrow> bool" where
  \<comment> \<open>digits, with single underscores allowed between two digits\<close>
  "digit_groups [] = False"
| "digit_groups [c] = is_digit c"
| "digit_groups (c # d # s) =
     (is_digit c \<and> (if d = CHR ''_'' then digit_groups s else digit_groups (d # s)))"

definition digit_value :: "char \<Rightarrow> int" where
  "digit_value c = of_char c - 48"

definition int_of_digits :: "string \<Rightarrow> int" where
  "int_of_digits ds = foldl (\<lambda>a c. 10 * a + digit_value c) 0 ds"

definition split_sign :: "string \<Rightarrow> bool \<times> string" where
  \<comment> \<open>an optional sign: whether it is a minus, and the rest\<close>
  "split_sign s =
     (case s of
        [] \<Rightarrow> (False, s)
      | c # r \<Rightarrow> if c = CHR ''-'' then (True, r) else if c = CHR ''+'' then (False, r) else (False, s))"

definition int_max_str_digits :: nat where
  \<comment> \<open>the interpreter's default limit on the digits of an integer literal\<close>
  "int_max_str_digits = 4300"

definition py_int :: "string \<Rightarrow> error + int" where
  \<comment> \<open>\<^verbatim>\<open>int(s)\<close> of a \<^verbatim>\<open>str\<close>, base 10\<close>
  "py_int s =
     (case split_sign (str_strip s) of (neg, body) \<Rightarrow>
        let ds = filter (\<lambda>c. c \<noteq> CHR ''_'') body
        in if digit_groups body \<and> length ds \<le> int_max_str_digits
           then Inr (if neg then - int_of_digits ds else int_of_digits ds)
           else Inl (ValueError s))"

definition round_half_even :: "rat \<Rightarrow> int" where
  "round_half_even q =
     (let f = \<lfloor>q\<rfloor>; r = q - of_int f
      in if r < 1 / 2 then f else if 1 / 2 < r then f + 1 else if even f then f else f + 1)"

definition pow2 :: "int \<Rightarrow> rat" where
  "pow2 k = (if 0 \<le> k then 2 ^ nat k else 1 / 2 ^ nat (- k))"

definition pow10 :: "int \<Rightarrow> rat" where
  "pow10 k = (if 0 \<le> k then 10 ^ nat k else 1 / 10 ^ nat (- k))"

function bit_length :: "int \<Rightarrow> int" where
  "bit_length n = (if n \<le> 0 then 0 else 1 + bit_length (n div 2))"
  by pat_completeness auto
termination
  by (relation "measure nat") auto

definition binary64 :: "rat \<Rightarrow> pyfloat" where
  \<comment> \<open>the double nearest to a rational, ties to even; the sign of a zero is not kept\<close>
  "binary64 q =
     (if q = 0 then Finite 0
      else
        let a = \<bar>q\<bar>;
            (n, d) = quotient_of a;
            e0 = bit_length n - bit_length d;
            e = (if pow2 e0 \<le> a then e0 else e0 - 1);
            ulp = pow2 (max e (- 1022) - 52);
            r = of_int (round_half_even (a / ulp)) * ulp
        in if pow2 1024 \<le> r then Infinite (q < 0)
           else Finite (if q < 0 then - r else r))"

definition parse_exponent :: "string \<Rightarrow> int option" where
  \<comment> \<open>nothing, or \<^verbatim>\<open>e\<close>, an optional sign and digits\<close>
  "parse_exponent s =
     (case s of
        [] \<Rightarrow> Some 0
      | c # r \<Rightarrow>
          if c = CHR ''e'' \<or> c = CHR ''E'' then
            (case split_sign r of (neg, ds) \<Rightarrow>
               if ds \<noteq> [] \<and> list_all is_digit ds
               then Some (if neg then - int_of_digits ds else int_of_digits ds)
               else None)
          else None)"

definition parse_decimal :: "string \<Rightarrow> rat option" where
  \<comment> \<open>digits, an optional point and digits, an optional exponent; one digit at least
      before the exponent\<close>
  "parse_decimal s =
     (let ip = takeWhile is_digit s; r1 = dropWhile is_digit s;
          (fp, r2) = (case r1 of
                        [] \<Rightarrow> ([], r1)
                      | c # r \<Rightarrow> if c = CHR ''.''
                                 then (takeWhile is_digit r, dropWhile is_digit r)
                                 else ([], r1))
      in if ip = [] \<and> fp = [] then None
         else (case parse_exponent r2 of
                 None \<Rightarrow> None
               | Some ex \<Rightarrow>
                   Some (of_int (int_of_digits (ip @ fp)) * pow10 (ex - int (length fp)))))"

fun underscores_ok :: "char \<Rightarrow> string \<Rightarrow> bool" where
  \<comment> \<open>every underscore stands between two digits; the first argument is the previous
      character\<close>
  "underscores_ok prev [] = (prev \<noteq> CHR ''_'')"
| "underscores_ok prev (c # s) =
     ((if c = CHR ''_'' then is_digit prev else if prev = CHR ''_'' then is_digit c else True)
      \<and> underscores_ok c s)"

definition py_float :: "string \<Rightarrow> error + pyfloat" where
  \<comment> \<open>\<^verbatim>\<open>float(s)\<close> of a \<^verbatim>\<open>str\<close>\<close>
  "py_float s =
     (let t = str_strip s
      in if \<not> underscores_ok (CHR 0x00) t then Inl (ValueError s)
         else
           (case split_sign (filter (\<lambda>c. c \<noteq> CHR ''_'') t) of (neg, body) \<Rightarrow>
              if str_lower body = ''inf'' \<or> str_lower body = ''infinity'' then Inr (Infinite neg)
              else if str_lower body = ''nan'' then Inr NaN
              else (case parse_decimal body of
                      None \<Rightarrow> Inl (ValueError s)
                    | Some q \<Rightarrow> Inr (binary64 (if neg then - q else q)))))"

subsection \<open>The two patterns\<close>

definition dev_id_match :: "string \<Rightarrow> string option" where
  \<comment> \<open>\<^verbatim>\<open>re.compile(r"DEV ID (\d+)").match(line)\<close>: the match is anchored at the start of
      the line; the result is group 1, the longest run of digits\<close>
  "dev_id_match line =
     (if startswith line ''DEV ID ''
      then (let ds = takeWhile is_digit (drop 7 line) in if ds = [] then None else Some ds)
      else None)"

function more_words :: "string \<Rightarrow> string \<times> string" where
  \<comment> \<open>\<^verbatim>\<open>(?:\s\w+)*\<close> after a word: what it takes, and the rest\<close>
  "more_words s =
     (case s of
        c # d # r \<Rightarrow>
          if is_space c \<and> is_word d
          then (case more_words (dropWhile is_word r) of
                  (k, rest) \<Rightarrow> (c # d # takeWhile is_word r @ k, rest))
          else ([], s)
      | _ \<Rightarrow> ([], s))"
  by pat_completeness auto
termination
  by (relation "measure length") (auto simp: less_Suc_eq_le intro: le_trans [OF length_dropWhile_le])

definition property_match :: "string \<Rightarrow> (string \<times> string) option" where
  \<comment> \<open>\<^verbatim>\<open>re.compile(r"^\s*(\w+(?:\s\w+)*)\s*:\s*(.*)$").match(line)\<close>: groups 1 and 2.
      No character is both whitespace and a word character, and the colon is neither, so
      the longest choice at each repetition is the only one that can match.\<close>
  "property_match line =
     (let s1 = dropWhile is_space line;
          w = takeWhile is_word s1
      in if w = [] then None
         else (case more_words (dropWhile is_word s1) of
                 (k, s2) \<Rightarrow>
                   (case dropWhile is_space s2 of
                      [] \<Rightarrow> None
                    | c # s3 \<Rightarrow>
                        if c = CHR '':'' then Some (w @ k, dropWhile is_space s3) else None)))"

subsection \<open>The language of the key pattern\<close>

inductive word_groups :: "string \<Rightarrow> bool" where
  \<comment> \<open>the texts of \<^verbatim>\<open>(?:\s\w+)*\<close>\<close>
  none: "word_groups []"
| more: "is_space c \<Longrightarrow> w \<noteq> [] \<Longrightarrow> list_all is_word w \<Longrightarrow> word_groups g
           \<Longrightarrow> word_groups (c # w @ g)"

subsection \<open>Dictionaries\<close>

text \<open>
  A \<^verbatim>\<open>dict\<close> keeps its keys in insertion order, and the assembler iterates over one, so
  a dictionary is an association list with distinct keys: a store to a key that is
  present replaces the value where it is, a store to a new key goes to the end.
\<close>

fun dict_set :: "'k \<Rightarrow> 'v \<Rightarrow> ('k \<times> 'v) list \<Rightarrow> ('k \<times> 'v) list" where
  "dict_set k v [] = [(k, v)]"
| "dict_set k v (p # d) = (if fst p = k then (k, v) # d else p # dict_set k v d)"

type_synonym fields = "(string \<times> pyval) list"

type_synonym category_map = "(pyval \<times> fields) list"

definition get_field :: "fields \<Rightarrow> string \<Rightarrow> error + pyval" where
  \<comment> \<open>\<^verbatim>\<open>item[name]\<close>\<close>
  "get_field item name = (case map_of item name of None \<Rightarrow> Inl (KeyError (VStr name)) | Some v \<Rightarrow> Inr v)"

definition get_entry :: "category_map \<Rightarrow> pyval \<Rightarrow> error + fields" where
  \<comment> \<open>\<^verbatim>\<open>info[key]\<close>\<close>
  "get_entry info key = (case map_of info key of None \<Rightarrow> Inl (KeyError key) | Some item \<Rightarrow> Inr item)"

subsection \<open>The section parser\<close>

definition first_token :: "pyval \<Rightarrow> error + string" where
  \<comment> \<open>\<^verbatim>\<open>value.split()[0]\<close>\<close>
  "first_token v =
     (case v of
        VStr s \<Rightarrow> (case str_split s of [] \<Rightarrow> Inl IndexError | t # ts \<Rightarrow> Inr t)
      | _ \<Rightarrow> Inl AttributeError)"

definition coerce :: "string \<Rightarrow> pyval \<Rightarrow> error + pyval" where
  \<comment> \<open>the three \<^verbatim>\<open>if\<close> statements on the key, in their order\<close>
  "coerce key v0 =
     then_do (if endswith key ''_Size''
              then then_do (first_token v0) (\<lambda>t. then_do (py_int t) (\<lambda>n. Inr (VInt (n * 1024 * 1024))))
              else Inr v0) (\<lambda>v1.
     then_do (if key = ''GCU_Temp''
              then then_do (first_token v1) (\<lambda>t. then_do (py_float t) (\<lambda>x. Inr (VFloat x)))
              else Inr v1) (\<lambda>v2.
     if key = ''GCU_Usage''
     then then_do (first_token v2) (\<lambda>t. then_do (py_float t) (\<lambda>x. Inr (VFloat x)))
     else Inr v2))"

definition flush :: "category_map \<Rightarrow> fields \<Rightarrow> error + category_map" where
  \<comment> \<open>\<^verbatim>\<open>if current_device: devices[current_device["DEV_ID"]] = current_device\<close>\<close>
  "flush devices current_device =
     (if current_device \<noteq> []
      then then_do (get_field current_device ''DEV_ID'')
             (\<lambda>dev_id. Inr (dict_set dev_id current_device devices))
      else Inr devices)"

definition process_line :: "category_map \<times> fields \<Rightarrow> string \<Rightarrow> error + category_map \<times> fields" where
  \<comment> \<open>the body of the loop over the lines, on the pair of \<^verbatim>\<open>devices\<close> and
      \<^verbatim>\<open>current_device\<close>\<close>
  "process_line st line =
     (case st of (devices, current_device) \<Rightarrow>
        (case dev_id_match line of
           Some g \<Rightarrow>
             then_do (flush devices current_device) (\<lambda>devices'.
             then_do (py_int g) (\<lambda>n. Inr (devices', [(''DEV_ID'', VInt n)])))
         | None \<Rightarrow>
             (case property_match line of
                None \<Rightarrow> Inr st
              | Some (k, v) \<Rightarrow>
                  if current_device \<noteq> [] then
                    then_do (coerce (str_replace_space k) (VStr (str_strip v)))
                      (\<lambda>val. Inr (devices, dict_set (str_replace_space k) val current_device))
                  else Inr st)))"

fun process_lines :: "category_map \<times> fields \<Rightarrow> string list \<Rightarrow> error + category_map \<times> fields" where
  "process_lines st [] = Inr st"
| "process_lines st (line # rest) =
     (case process_line st line of Inl e \<Rightarrow> Inl e | Inr st' \<Rightarrow> process_lines st' rest)"

definition parse_lines :: "string list \<Rightarrow> error + category_map" where
  \<comment> \<open>the loop from the empty state, and the store of the last device\<close>
  "parse_lines ls =
     then_do (process_lines ([], []) ls) (\<lambda>st. flush (fst st) (snd st))"

definition get_gpu_info :: "subprocess_run \<Rightarrow> string list \<Rightarrow> error + category_map" where
  "get_gpu_info run command =
     then_do (run_command run command) (\<lambda>output.
       case output of
         None \<Rightarrow> Inl (Exception ''Failed to get GPU base info'')
       | Some text \<Rightarrow> parse_lines (splitlines text))"

subsection \<open>The record assembler\<close>

text \<open>
  Modelled from the spec: the classes \<^verbatim>\<open>GPUDeviceInfo\<close>, \<^verbatim>\<open>GPUCoreInfo\<close> and
  \<^verbatim>\<open>MemoryInfo\<close> and the enumerations \<^verbatim>\<open>VendorEnum\<close> and \<^verbatim>\<open>DeviceTypeEnum\<close> come from
  modules that are not part of the source. The records have the fields that the
  constructor calls of the assembler name, a constructor stores what it is given, and
  the two enumeration values are the fixed constants of the device record.
\<close>

datatype VendorEnum = Enflame

datatype DeviceTypeEnum = GPU

record GPUCoreInfo =
  core_utilization_rate :: pyval

record MemoryInfo =
  is_unified_memory :: bool
  total :: pyval
  used :: pyval
  utilization_rate :: pyval

record GPUDeviceInfo =
  index :: pyval
  device_index :: pyval
  device_chip_index :: pyval
  name :: pyval
  uuid :: pyval
  vendor :: VendorEnum
  device_type :: DeviceTypeEnum
  core :: GPUCoreInfo
  memory :: MemoryInfo
  temperature :: pyval

definition make_device ::
  "pyval \<Rightarrow> fields \<Rightarrow> category_map \<Rightarrow> category_map \<Rightarrow> category_map \<Rightarrow> error + GPUDeviceInfo" where
  \<comment> \<open>the constructor call of the loop body: the arguments are evaluated in the order
      in which they are written\<close>
  "make_device key item memory_info temperature_info usage_info =
     then_do (get_field item ''DEV_ID'') (\<lambda>a_index.
     then_do (get_field item ''DEV_ID'') (\<lambda>a_device_index.
     then_do (get_field item ''DEV_ID'') (\<lambda>a_device_chip_index.
     then_do (get_field item ''Dev_Name'') (\<lambda>a_name.
     then_do (get_field item ''Dev_UUID'') (\<lambda>a_uuid.
     then_do (then_do (get_entry usage_info key) (\<lambda>u. get_field u ''GCU_Usage'')) (\<lambda>a_core_rate.
     then_do (then_do (get_entry memory_info key) (\<lambda>m. get_field m ''Total_Size'')) (\<lambda>a_total.
     then_do (then_do (get_entry memory_info key) (\<lambda>m. get_field m ''Used_Size'')) (\<lambda>a_used.
     then_do (then_do (get_entry usage_info key) (\<lambda>u. get_field u ''GCU_Usage'')) (\<lambda>a_memory_rate.
     then_do (then_do (get_entry temperature_info key) (\<lambda>t. get_field t ''GCU_Temp'')) (\<lambda>a_temperature.
     Inr \<lparr> index = a_index, device_index = a_device_index,
           device_chip_index = a_device_chip_index, name = a_name, uuid = a_uuid,
           vendor = Enflame, device_type = GPU,
           core = \<lparr> core_utilization_rate = a_core_rate \<rparr>,
           memory = \<lparr> is_unified_memory = False, total = a_total, used = a_used,
                      utilization_rate = a_memory_rate \<rparr>,
           temperature = a_temperature \<rparr>))))))))))"

fun assemble ::
  "category_map \<Rightarrow> category_map \<Rightarrow> category_map \<Rightarrow> category_map \<Rightarrow> GPUDeviceInfo list
     \<Rightarrow> error + GPUDeviceInfo list" where
  \<comment> \<open>the loop over \<^verbatim>\<open>device_info.items()\<close>; the last argument is the list \<^verbatim>\<open>devices\<close>\<close>
  "assemble [] memory_info temperature_info usage_info devices = Inr devices"
| "assemble (p # rest) memory_info temperature_info usage_info devices =
     (case make_device (fst p) (snd p) memory_info temperature_info usage_info of
        Inl e \<Rightarrow> Inl e
      | Inr device \<Rightarrow> assemble rest memory_info temperature_info usage_info (devices @ [device]))"

definition gather_gpu_info :: "subprocess_run \<Rightarrow> error + GPUDeviceInfo list" where
  "gather_gpu_info run =
     then_do (get_gpu_info run [''efsmi'', ''-q'', ''-d'', ''DEVICE'']) (\<lambda>device_info.
     then_do (get_gpu_info run [''efsmi'', ''-q'', ''-d'', ''MEMORY'']) (\<lambda>memory_info.
     then_do (get_gpu_info run [''efsmi'', ''-q'', ''-d'', ''TEMP'']) (\<lambda>temperature_info.
     then_do (get_gpu_info run [''efsmi'', ''-q'', ''-d'', ''USAGE'']) (\<lambda>usage_info.
     assemble device_info memory_info temperature_info usage_info []))))"

subsection \<open>Inputs of the scenarios\<close>

definition tool_output :: "string list \<Rightarrow> string" where
  \<comment> \<open>a text of the tool: the given lines, each ended by a line feed\<close>
  "tool_output ls = concat (map (\<lambda>l. l @ [CHR 0x0A]) ls)"

definition completed :: "string \<Rightarrow> completed_process" where
  \<comment> \<open>a run that exits with status 0, prints the text and leaves the error stream empty\<close>
  "completed text = \<lparr> returncode = 0, stdout = Some text, stderr = Some [] \<rparr>"

definition scenario_run :: subprocess_run where
  \<comment> \<open>the tool on a host with one device, for the four queries of the assembler\<close>
  "scenario_run command =
     (if command = [''efsmi'', ''-q'', ''-d'', ''DEVICE'']
      then Inr (completed (tool_output
             [''DEV ID 0'', ''    Dev Name : GCU0'', ''    Dev UUID : abc'']))
      else if command = [''efsmi'', ''-q'', ''-d'', ''MEMORY'']
      then Inr (completed (tool_output
             [''DEV ID 0'', ''    Total Size : 32768 MiB'', ''    Used Size : 1024 MiB'']))
      else if command = [''efsmi'', ''-q'', ''-d'', ''TEMP'']
      then Inr (completed (tool_output [''DEV ID 0'', ''    GCU Temp : 45 C'']))
      else if command = [''efsmi'', ''-q'', ''-d'', ''USAGE'']
      then Inr (completed (tool_output [''DEV ID 0'', ''    GCU Usage : 12 %'']))
      else Inl ''No such file or directory'')"

subsection \<open>Notions for the properties of the parser\<close>

definition boundary_id :: "string \<Rightarrow> int option" where
  \<comment> \<open>the id that a device-boundary line declares: what the loop makes of the line\<close>
  "boundary_id line =
     (case dev_id_match line of
        None \<Rightarrow> None
      | Some g \<Rightarrow> (case py_int g of Inl e \<Rightarrow> None | Inr n \<Rightarrow> Some n))"

definition declared_ids :: "string list \<Rightarrow> int list" where
  \<comment> \<open>the ids of the device blocks of a text, in the order of the blocks\<close>
  "declared_ids ls = List.map_filter boundary_id ls"

definition reserved_key_line :: "string \<Rightarrow> bool" where
  \<comment> \<open>a property line whose key becomes \<^verbatim>\<open>DEV_ID\<close>, the key under which the loop keeps
      the id of the open block\<close>
  "reserved_key_line line =
     (dev_id_match line = None \<and>
      (case property_match line of
         None \<Rightarrow> False
       | Some (k, v) \<Rightarrow> str_replace_space k = ''DEV_ID''))"

definition line_ok :: "string \<Rightarrow> bool" where
  \<comment> \<open>a boundary line whose digits \<^verbatim>\<open>int\<close> reads; a property line that does not take the
      reserved key and whose value passes the coercion of its key; any other line\<close>
  "line_ok line =
     (case dev_id_match line of
        Some g \<Rightarrow> \<not> isl (py_int g)
      | None \<Rightarrow>
          (case property_match line of
             None \<Rightarrow> True
           | Some (k, v) \<Rightarrow>
               str_replace_space k \<noteq> ''DEV_ID''
               \<and> \<not> isl (coerce (str_replace_space k) (VStr (str_strip v)))))"

definition well_formed :: "string list \<Rightarrow> bool" where
  "well_formed ls = list_all line_ok ls"

definition add_key :: "'k list \<Rightarrow> 'k \<Rightarrow> 'k list" where
  \<comment> \<open>the keys of a dictionary after a store to a key\<close>
  "add_key ks k = (if k \<in> set ks then ks else ks @ [k])"

definition open_id :: "fields \<Rightarrow> pyval list" where
  \<comment> \<open>the key under which the open block, if there is one, will be stored\<close>
  "open_id current_device =
     (if current_device = [] then []
      else (case map_of current_device ''DEV_ID'' of None \<Rightarrow> [] | Some v \<Rightarrow> [v]))"

definition has_id :: "fields \<Rightarrow> bool" where
  \<comment> \<open>the accumulator is closed, or it holds an integer id under the reserved key\<close>
  "has_id current_device =
     (current_device = [] \<or> (\<exists>n. map_of current_device ''DEV_ID'' = Some (VInt n)))"

definition has_fields :: "category_map \<Rightarrow> pyval \<Rightarrow> string list \<Rightarrow> bool" where
  \<comment> \<open>the entry of the key, if the map has one, holds the named fields\<close>
  "has_fields info key names =
     (case map_of info key of
        None \<Rightarrow> True
      | Some item \<Rightarrow> list_all (\<lambda>f. map_of item f \<noteq> None) names)"

definition scenario_without :: "string \<Rightarrow> subprocess_run" where
  \<comment> \<open>the host of \<open>scenario_run\<close>, but the query of one category reports device 1 only\<close>
  "scenario_without category command =
     (if command = [''efsmi'', ''-q'', ''-d'', category]
      then Inr (completed (tool_output
             [''DEV ID 1'', ''    Dev Name : GCU1'', ''    Dev UUID : def'',
              ''    Total Size : 32768 MiB'', ''    Used Size : 1024 MiB'',
              ''    GCU Temp : 45 C'', ''    GCU Usage : 12 %'']))
      else scenario_run command)"

section \<open>Properties\<close>

subsection \<open>The command runner\<close>

text \<open>
  C5, as amended. A run that exits with a status other than zero, and whose standard
  output does not hold the text "no devices" in any letter case, makes the runner raise
  an exception whose message holds the command, the exit status and both captured
  streams. The standard output need not be empty or non-empty for this.
\<close>

theorem run_command_nonzero_exit:
  assumes "run command = Inr result"
    and "stdout result = Some output"
    and "\<not> str_contains (str_lower output) ''no devices''"
    and "returncode result \<noteq> 0"
  shows "run_command run command =
           Inl (Exception (''Failed to execute '' @ str_list command
                  @ '': Unexpected return code: '' @ str_int (returncode result)
                  @ '', stdout: '' @ output @ '', stderr: '' @ str_opt (stderr result)))"
  using assms by (simp add: run_command_def failed_to_execute_def str_opt_def)

theorem run_command_nonzero_exit_witness:
  "run_command
     (\<lambda>c. Inr \<lparr> returncode = 2, stdout = Some ''driver not loaded'', stderr = Some ''fatal'' \<rparr>)
     [''efsmi'', ''-q'']
   = Inl (Exception (''Failed to execute ['' @ [CHR 0x27] @ ''efsmi'' @ [CHR 0x27] @ '', ''
            @ [CHR 0x27] @ ''-q'' @ [CHR 0x27]
            @ '']: Unexpected return code: 2, stdout: driver not loaded, stderr: fatal''))"
proof -
  let ?run = "\<lambda>c :: string list. Inr \<lparr> returncode = 2, stdout = Some ''driver not loaded'',
                                       stderr = Some ''fatal'' \<rparr> :: string + completed_process"
  have marker: "\<not> str_contains (str_lower ''driver not loaded'') ''no devices''"
    by code_simp
  have cmd: "str_list [''efsmi'', ''-q'']
               = ''['' @ [CHR 0x27] @ ''efsmi'' @ [CHR 0x27] @ '', '' @ [CHR 0x27] @ ''-q''
                   @ [CHR 0x27] @ '']''"
    by code_simp
  have code: "str_int 2 = ''2''"
    by code_simp
  from run_command_nonzero_exit [of ?run "[''efsmi'', ''-q'']" _ "''driver not loaded''",
      OF refl _ marker]
  have "run_command ?run [''efsmi'', ''-q'']
          = Inl (Exception (''Failed to execute '' @ str_list [''efsmi'', ''-q'']
                  @ '': Unexpected return code: '' @ str_int 2
                  @ '', stdout: '' @ ''driver not loaded'' @ '', stderr: ''
                  @ str_opt (Some ''fatal'')))"
    by simp
  with cmd code show ?thesis
    by (simp add: str_opt_def)
qed

text \<open>
  The claim as written fails when the standard output holds the marker: the runner
  tests the marker before the exit status, and returns \<^verbatim>\<open>None\<close> without raising.
\<close>

theorem nonzero_exit_with_marker_counterexample:
  "returncode \<lparr> returncode = 1, stdout = Some ''No devices found'', stderr = Some ''fatal'' \<rparr> \<noteq> 0
   \<and> stdout \<lparr> returncode = 1, stdout = Some ''No devices found'', stderr = Some ''fatal'' \<rparr>
       \<noteq> Some []
   \<and> run_command
        (\<lambda>c. Inr \<lparr> returncode = 1, stdout = Some ''No devices found'', stderr = Some ''fatal'' \<rparr>)
        [''efsmi'', ''-q'', ''-d'', ''DEVICE''] = Inr None"
  by code_simp

text \<open>
  C1, as amended. When the standard output of a category query holds the text
  "no devices" in any letter case, the runner returns \<^verbatim>\<open>None\<close> without raising, and the
  section parser then raises the exception "Failed to get GPU base info": the category
  yields no map.
\<close>

theorem no_devices_marker_raises:
  assumes "run command = Inr result"
    and "stdout result = Some output"
    and "str_contains (str_lower output) ''no devices''"
  shows "run_command run command = Inr None
         \<and> get_gpu_info run command = Inl (Exception ''Failed to get GPU base info'')"
  using assms by (simp add: run_command_def get_gpu_info_def)

theorem no_devices_marker_raises_witness:
  "get_gpu_info (\<lambda>c. Inr (completed ''No devices were found'')) [''efsmi'', ''-q'', ''-d'', ''TEMP'']
     = Inl (Exception ''Failed to get GPU base info'')"
proof -
  have marker: "str_contains (str_lower ''No devices were found'') ''no devices''"
    by code_simp
  have out: "stdout (completed ''No devices were found'') = Some ''No devices were found''"
    by (simp add: completed_def)
  from no_devices_marker_raises [of "\<lambda>c. Inr (completed ''No devices were found'')"
      "[''efsmi'', ''-q'', ''-d'', ''TEMP'']", OF refl out marker]
  show ?thesis by simp
qed

text \<open>
  The claim as written fails: with the marker in the standard output and exit status 0,
  the category parse is an error, not the empty map.
\<close>

theorem no_devices_marker_counterexample:
  "str_contains (str_lower ''No devices found'') ''no devices''
   \<and> get_gpu_info (\<lambda>c. Inr (completed ''No devices found'')) [''efsmi'', ''-q'', ''-d'', ''MEMORY'']
       = Inl (Exception ''Failed to get GPU base info'')"
  by code_simp

subsection \<open>The whole gather\<close>

text \<open>
  C3. The tool reports one device: the identity query a block with id 0, name GCU0 and
  uuid abc, the memory query id 0 with total "32768 MiB" and used "1024 MiB", the
  temperature query id 0 with "45 C", the usage query id 0 with "12 %". The gather
  returns exactly one record: index 0, name GCU0, uuid abc, 34359738368 bytes in
  total, 1073741824 bytes used, utilization 12.0 for the memory and for the core,
  temperature 45.0, no unified memory.
\<close>

theorem end_to_end_scenario:
  "gather_gpu_info scenario_run =
     Inr [\<lparr> index = VInt 0, device_index = VInt 0, device_chip_index = VInt 0,
            name = VStr ''GCU0'', uuid = VStr ''abc'', vendor = Enflame, device_type = GPU,
            core = \<lparr> core_utilization_rate = VFloat (Finite 12) \<rparr>,
            memory = \<lparr> is_unified_memory = False, total = VInt 34359738368,
                       used = VInt 1073741824, utilization_rate = VFloat (Finite 12) \<rparr>,
            temperature = VFloat (Finite 45) \<rparr>]"
  by code_simp

subsection \<open>The section parser\<close>

lemma then_do_Inr_iff: "then_do x f = Inr y \<longleftrightarrow> (\<exists>v. x = Inr v \<and> f v = Inr y)"
  by (cases x) auto

lemma process_lines_append:
  "process_lines st (xs @ ys) =
     (case process_lines st xs of Inl e \<Rightarrow> Inl e | Inr st' \<Rightarrow> process_lines st' ys)"
  by (induction xs arbitrary: st) (auto split: sum.splits)

lemma process_line_closed:
  "dev_id_match line = None \<Longrightarrow> process_line (devices, []) line = Inr (devices, [])"
  by (simp add: process_line_def split: option.splits)

lemma process_lines_closed:
  "list_all (\<lambda>l. dev_id_match l = None) pre \<Longrightarrow>
     process_lines (devices, []) pre = Inr (devices, [])"
  by (induction pre) (simp_all add: process_line_closed)

text \<open>
  C6. A line that comes before the first device-boundary line, a property line in
  particular, is dropped: the parse of the text is the parse of the text without that
  line, whatever the line holds (a value that is no number raises nothing there). So
  the line reaches no entry of the output map, and no record built from the map.
\<close>

theorem line_before_first_boundary_dropped:
  assumes "list_all (\<lambda>l. dev_id_match l = None) pre"
    and "dev_id_match line = None"
  shows "parse_lines (pre @ line # rest) = parse_lines (pre @ rest)"
  using assms
  by (simp add: parse_lines_def process_lines_append process_lines_closed process_line_closed)

theorem line_before_first_boundary_dropped_witness:
  "parse_lines ([''Driver Version : 1.0''] @ ''Total Size : unknown'' # [''DEV ID 0'', ''Dev Name : GCU0''])
     = parse_lines ([''Driver Version : 1.0''] @ [''DEV ID 0'', ''Dev Name : GCU0''])
   \<and> property_match ''Total Size : unknown'' = Some (''Total Size'', ''unknown'')
   \<and> parse_lines [''Driver Version : 1.0'', ''DEV ID 0'', ''Dev Name : GCU0'']
     = Inr [(VInt 0, [(''DEV_ID'', VInt 0), (''Dev_Name'', VStr ''GCU0'')])]"
proof -
  have pre: "list_all (\<lambda>l. dev_id_match l = None) [''Driver Version : 1.0'']"
    by code_simp
  have line: "dev_id_match ''Total Size : unknown'' = None"
    by code_simp
  have matched: "property_match ''Total Size : unknown'' = Some (''Total Size'', ''unknown'')"
    by code_simp
  have parsed: "parse_lines [''Driver Version : 1.0'', ''DEV ID 0'', ''Dev Name : GCU0'']
     = Inr [(VInt 0, [(''DEV_ID'', VInt 0), (''Dev_Name'', VStr ''GCU0'')])]"
    by code_simp
  from line_before_first_boundary_dropped [OF pre line] matched parsed show ?thesis
    by simp
qed

lemma size_key_not_float_key:
  "endswith key ''_Size'' \<Longrightarrow> key \<noteq> ''GCU_Temp'' \<and> key \<noteq> ''GCU_Usage''"
  by (auto simp: endswith_def)

lemma coerce_size:
  assumes "endswith key ''_Size''" and "str_split s = t # ts" and "py_int t = Inr n"
  shows "coerce key (VStr s) = Inr (VInt (n * 1024 * 1024))"
  using assms size_key_not_float_key [OF assms(1)]
  by (simp add: coerce_def first_token_def)

text \<open>
  C7, as amended. For a property line inside a device block (the accumulator is open)
  whose key, with spaces turned into underscores, ends with "_Size" in exactly this
  spelling, and whose value starts with a token that \<^verbatim>\<open>int\<close> reads as n, the parser
  stores n * 1024 * 1024 under that key. The value "100 MiB" under the key
  "Total Size" is stored as 104857600 (the witness).
\<close>

theorem size_field_stored_as_bytes:
  assumes "dev_id_match line = None"
    and "property_match line = Some (k, v)"
    and "current_device \<noteq> []"
    and "endswith (str_replace_space k) ''_Size''"
    and "str_split (str_strip v) = t # ts"
    and "py_int t = Inr n"
  shows "process_line (devices, current_device) line =
           Inr (devices, dict_set (str_replace_space k) (VInt (n * 1024 * 1024)) current_device)"
  using assms by (simp add: process_line_def coerce_size)

theorem size_field_stored_as_bytes_witness:
  "process_line ([], [(''DEV_ID'', VInt 0)]) ''    Total Size : 100 MiB''
     = Inr ([], [(''DEV_ID'', VInt 0), (''Total_Size'', VInt 104857600)])"
proof -
  have boundary: "dev_id_match ''    Total Size : 100 MiB'' = None"
    by code_simp
  have matched: "property_match ''    Total Size : 100 MiB'' = Some (''Total Size'', ''100 MiB'')"
    by code_simp
  have key: "str_replace_space ''Total Size'' = ''Total_Size''"
    by code_simp
  have suffix: "endswith (str_replace_space ''Total Size'') ''_Size''"
    by code_simp
  have tokens: "str_split (str_strip ''100 MiB'') = ''100'' # [''MiB'']"
    by code_simp
  have number: "py_int ''100'' = Inr 100"
    by code_simp
  have "[(''DEV_ID'', VInt 0)] \<noteq> ([] :: fields)"
    by simp
  from size_field_stored_as_bytes [OF boundary matched this suffix tokens number, of "[]"]
  show ?thesis
    by (simp add: key)
qed

text \<open>
  The claim as written fails for a key that ends with "size" in another spelling: the
  value of "Total size" stays the text "100 MiB".
\<close>

theorem lower_case_size_counterexample:
  "property_match ''Total size : 100 MiB'' = Some (''Total size'', ''100 MiB'')
   \<and> endswith (str_replace_space ''Total size'') ''size''
   \<and> py_int ''100'' = Inr 100
   \<and> parse_lines [''DEV ID 0'', ''Total size : 100 MiB'']
       = Inr [(VInt 0, [(''DEV_ID'', VInt 0), (''Total_size'', VStr ''100 MiB'')])]"
  by code_simp

lemma dict_set_not_empty: "dict_set k v d \<noteq> []"
  by (cases d) auto

lemma process_line_stays_open:
  assumes "process_line (devices, current_device) line = Inr (devices', current_device')"
    and "current_device \<noteq> [] \<or> dev_id_match line \<noteq> None"
  shows "current_device' \<noteq> []"
  using assms
  by (auto simp: process_line_def then_do_Inr_iff dict_set_not_empty
           split: option.splits if_splits)

lemma process_lines_stays_open:
  assumes "process_lines (devices, current_device) ls = Inr (devices', current_device')"
    and "current_device \<noteq> [] \<or> list_ex (\<lambda>l. dev_id_match l \<noteq> None) ls"
  shows "current_device' \<noteq> []"
  using assms
proof (induction ls arbitrary: devices current_device)
  case Nil
  then show ?case by simp
next
  case (Cons l ls)
  from Cons.prems(1) obtain d1 c1 where
    step: "process_line (devices, current_device) l = Inr (d1, c1)"
    and rest: "process_lines (d1, c1) ls = Inr (devices', current_device')"
    by (auto split: sum.splits)
  show ?case
  proof (cases "current_device \<noteq> [] \<or> dev_id_match l \<noteq> None")
    case True
    with step have "c1 \<noteq> []" by (rule process_line_stays_open)
    with Cons.IH [OF rest] show ?thesis by simp
  next
    case False
    with Cons.prems(2) have "list_ex (\<lambda>l. dev_id_match l \<noteq> None) ls" by simp
    with Cons.IH [OF rest] show ?thesis by simp
  qed
qed

lemma coerce_malformed:
  assumes "endswith key ''_Size'' \<or> key = ''GCU_Temp'' \<or> key = ''GCU_Usage''"
    and "case str_split s of
           [] \<Rightarrow> True
         | t # ts \<Rightarrow> if endswith key ''_Size'' then isl (py_int t) else isl (py_float t)"
  shows "isl (coerce key (VStr s))"
proof (cases "endswith key ''_Size''")
  case True
  with assms(2) show ?thesis
    by (cases "str_split s")
       (auto simp: coerce_def first_token_def isl_def then_do_Inr_iff
             elim!: sum.exhaust [of "py_int _"])
next
  case False
  with assms show ?thesis
    by (cases "str_split s") (auto simp: coerce_def first_token_def isl_def endswith_def)
qed

text \<open>
  C8. Take a property line inside a device block (a device-boundary line comes before
  it) whose key is coerced to a number: the key ends with "_Size", or is "GCU_Temp" or
  "GCU_Usage". If its value has no token, or its first token is not read by \<^verbatim>\<open>int\<close> (for
  a size) or by \<^verbatim>\<open>float\<close> (for the other two), the parse of the whole text is an error:
  no map is returned, and no default value is stored.
\<close>

theorem malformed_number_fails_parse:
  assumes "list_ex (\<lambda>l. dev_id_match l \<noteq> None) pre"
    and "dev_id_match line = None"
    and "property_match line = Some (k, v)"
    and "endswith (str_replace_space k) ''_Size'' \<or> str_replace_space k = ''GCU_Temp''
         \<or> str_replace_space k = ''GCU_Usage''"
    and "case str_split (str_strip v) of
           [] \<Rightarrow> True
         | t # ts \<Rightarrow> if endswith (str_replace_space k) ''_Size'' then isl (py_int t)
                     else isl (py_float t)"
  shows "\<exists>e. parse_lines (pre @ line # rest) = Inl e"
proof (cases "process_lines ([], []) pre")
  case (Inl e)
  then show ?thesis by (simp add: parse_lines_def process_lines_append)
next
  case (Inr st)
  obtain d c where st: "st = (d, c)" by (cases st)
  from Inr st assms(1) have "c \<noteq> []"
    using process_lines_stays_open [of "[]" "[]" pre d c] by simp
  moreover from coerce_malformed [OF assms(4,5)]
  obtain e where "coerce (str_replace_space k) (VStr (str_strip v)) = Inl e"
    by (auto simp: isl_def)
  ultimately have "process_line (d, c) line = Inl e"
    using assms(2,3) by (simp add: process_line_def)
  with Inr st show ?thesis by (simp add: parse_lines_def process_lines_append)
qed

theorem malformed_number_fails_parse_witness:
  "\<exists>e. parse_lines ([''DEV ID 0''] @ ''    GCU Temp : N/A'' # [''    GCU Power : 70 W'']) = Inl e"
proof -
  have block: "list_ex (\<lambda>l. dev_id_match l \<noteq> None) [''DEV ID 0'']"
    by code_simp
  have boundary: "dev_id_match ''    GCU Temp : N/A'' = None"
    by code_simp
  have matched: "property_match ''    GCU Temp : N/A'' = Some (''GCU Temp'', ''N/A'')"
    by code_simp
  have key: "endswith (str_replace_space ''GCU Temp'') ''_Size''
             \<or> str_replace_space ''GCU Temp'' = ''GCU_Temp''
             \<or> str_replace_space ''GCU Temp'' = ''GCU_Usage''"
    by code_simp
  have bad: "case str_split (str_strip ''N/A'') of
               [] \<Rightarrow> True
             | t # ts \<Rightarrow> if endswith (str_replace_space ''GCU Temp'') ''_Size''
                         then isl (py_int t) else isl (py_float t)"
    by code_simp
  from malformed_number_fails_parse [OF block boundary matched key bad]
  show ?thesis .
qed

lemma digit_not_special:
  "is_digit c \<Longrightarrow> \<not> is_space c \<and> c \<noteq> CHR ''_'' \<and> c \<noteq> CHR ''-'' \<and> c \<noteq> CHR ''+''"
  by (auto simp: is_digit_def is_space_def Let_def)

lemma digits_strip:
  assumes "list_all is_digit ds"
  shows "str_strip ds = ds"
proof -
  have a: "dropWhile is_space xs = xs" if "list_all is_digit xs" for xs
    using that by (cases xs) (auto simp: digit_not_special)
  have "list_all is_digit (rev ds)"
    using assms by (simp add: list_all_iff)
  with a [OF assms] a [of "rev ds"] show ?thesis
    by (simp add: str_strip_def)
qed

lemma digits_groups: "ds \<noteq> [] \<Longrightarrow> list_all is_digit ds \<Longrightarrow> digit_groups ds"
  by (induction ds rule: digit_groups.induct) (auto simp: digit_not_special)

lemma digits_no_underscore: "list_all is_digit ds \<Longrightarrow> filter (\<lambda>c. c \<noteq> CHR ''_'') ds = ds"
  by (induction ds) (auto simp: digit_not_special)

lemma py_int_digits:
  assumes "ds \<noteq> []" and "list_all is_digit ds" and "length ds \<le> int_max_str_digits"
  shows "py_int ds = Inr (int_of_digits ds)"
proof -
  from assms(1,2) have "split_sign ds = (False, ds)"
    by (cases ds) (auto simp: split_sign_def digit_not_special)
  with assms show ?thesis
    by (simp add: py_int_def digits_strip digits_groups digits_no_underscore)
qed

lemma dev_id_match_digits:
  "dev_id_match line = Some g \<Longrightarrow> g \<noteq> [] \<and> list_all is_digit g"
  by (auto simp: dev_id_match_def Let_def list_all_iff split: if_splits dest: set_takeWhileD)

text \<open>
  C9, as amended. A line that starts with "DEV ID " followed at once by decimal digits
  (at most as many as \<^verbatim>\<open>int\<close> accepts) is a device-boundary line: with no open
  accumulator it leaves the output map as it is, with an open accumulator it stores that
  accumulator in the output map under the value of its reserved key; in both cases it
  opens a new accumulator that holds only the number of the longest run of digits, under
  the reserved key.
\<close>

theorem boundary_line_flushes_and_opens:
  assumes "startswith line ''DEV ID ''"
    and "takeWhile is_digit (drop 7 line) = ds"
    and "ds \<noteq> []"
    and "length ds \<le> int_max_str_digits"
  shows "process_line (devices, []) line = Inr (devices, [(''DEV_ID'', VInt (int_of_digits ds))])
         \<and> (map_of current_device ''DEV_ID'' = Some dev_id \<longrightarrow>
              process_line (devices, current_device) line
                = Inr (dict_set dev_id current_device devices,
                       [(''DEV_ID'', VInt (int_of_digits ds))]))"
proof -
  from assms(1-3) have m: "dev_id_match line = Some ds"
    by (auto simp: dev_id_match_def)
  from dev_id_match_digits [OF m] assms(4) have "py_int ds = Inr (int_of_digits ds)"
    by (simp add: py_int_digits)
  with m show ?thesis
    by (auto simp: process_line_def flush_def get_field_def)
qed

theorem boundary_line_flushes_and_opens_witness:
  "process_line ([], []) ''DEV ID 12 (GCU)'' = Inr ([], [(''DEV_ID'', VInt 12)])
   \<and> process_line ([], [(''DEV_ID'', VInt 3), (''Dev_Name'', VStr ''GCU3'')]) ''DEV ID 12 (GCU)''
       = Inr ([(VInt 3, [(''DEV_ID'', VInt 3), (''Dev_Name'', VStr ''GCU3'')])],
              [(''DEV_ID'', VInt 12)])"
proof -
  have start: "startswith ''DEV ID 12 (GCU)'' ''DEV ID ''"
    by code_simp
  have digits: "takeWhile is_digit (drop 7 ''DEV ID 12 (GCU)'') = ''12''"
    by code_simp
  have some: "''12'' \<noteq> ([] :: string)"
    by simp
  have few: "length ''12'' \<le> int_max_str_digits"
    by (simp add: int_max_str_digits_def)
  have number: "int_of_digits ''12'' = 12"
    by code_simp
  from boundary_line_flushes_and_opens [OF start digits some few, of "[]"
      "[(''DEV_ID'', VInt 3), (''Dev_Name'', VStr ''GCU3'')]" "VInt 3"]
  show ?thesis
    by (simp add: number)
qed

text \<open>
  The claim as written fails for a line that holds "DEV ID 5" after other text, here
  after a space: the pattern is matched at the start of the line only, and the line
  opens no accumulator.
\<close>

theorem indented_boundary_counterexample:
  "str_contains '' DEV ID 5'' ''DEV ID 5''
   \<and> process_line ([], []) '' DEV ID 5'' = Inr ([], [])
   \<and> parse_lines ['' DEV ID 5''] = Inr []
   \<and> parse_lines [''DEV ID 5''] = Inr [(VInt 5, [(''DEV_ID'', VInt 5)])]"
  by code_simp

lemma map_fst_dict_set: "map fst (dict_set k v d) = add_key (map fst d) k"
  by (induction d) (auto simp: add_key_def)

lemma map_of_dict_set: "map_of (dict_set k v d) k' = (if k' = k then Some v else map_of d k')"
  by (induction d) auto

lemma foldl_add_key_distinct:
  "distinct (acc @ ks) \<Longrightarrow> foldl add_key acc ks = acc @ ks"
  by (induction ks arbitrary: acc) (auto simp: add_key_def)

lemma set_foldl_add_key: "set (foldl add_key acc ks) = set acc \<union> set ks"
  by (induction ks arbitrary: acc) (auto simp: add_key_def)

lemma distinct_foldl_add_key: "distinct acc \<Longrightarrow> distinct (foldl add_key acc ks)"
  by (induction ks arbitrary: acc) (auto simp: add_key_def)

lemma flush_keys:
  assumes "has_id c"
  shows "\<exists>d'. flush d c = Inr d' \<and> map fst d' = foldl add_key (map fst d) (open_id c)"
  using assms
  by (auto simp: has_id_def flush_def get_field_def open_id_def map_fst_dict_set)

lemma declared_ids_Cons:
  "declared_ids (l # ls) = (case boundary_id l of None \<Rightarrow> declared_ids ls | Some n \<Rightarrow> n # declared_ids ls)"
  by (simp add: declared_ids_def List.map_filter_simps split: option.splits)

lemma process_line_step:
  assumes "has_id c" and "\<not> reserved_key_line l"
    and "process_line (d, c) l = Inr (d', c')"
  shows "has_id c' \<and>
         foldl add_key (map fst d') (open_id c' @ map VInt (declared_ids ls))
           = foldl add_key (map fst d) (open_id c @ map VInt (declared_ids (l # ls)))"
proof (cases "dev_id_match l")
  case (Some g)
  from assms(3) Some obtain n where d': "flush d c = Inr d'" and n: "py_int g = Inr n"
    and c': "c' = [(''DEV_ID'', VInt n)]"
    by (auto simp: process_line_def then_do_Inr_iff)
  from flush_keys [OF assms(1), of d] d'
  have "map fst d' = foldl add_key (map fst d) (open_id c)" by simp
  moreover from Some n have "boundary_id l = Some n" by (simp add: boundary_id_def)
  ultimately show ?thesis
    using c' by (simp add: has_id_def open_id_def declared_ids_Cons)
next
  case None
  then have ids: "declared_ids (l # ls) = declared_ids ls"
    by (simp add: declared_ids_Cons boundary_id_def)
  show ?thesis
  proof (cases "property_match l")
    case no: None
    with None assms(3) ids show ?thesis
      using assms(1) by (simp add: process_line_def)
  next
    case (Some kv)
    obtain k v where kv: "kv = (k, v)" by (cases kv)
    show ?thesis
    proof (cases "c = []")
      case True
      with None Some kv assms(3) ids assms(1) show ?thesis
        by (simp add: process_line_def)
    next
      case False
      from assms(2) None Some kv have key: "str_replace_space k \<noteq> ''DEV_ID''"
        by (simp add: reserved_key_line_def)
      from assms(3) None Some kv False obtain val where
        d': "d' = d" and c': "c' = dict_set (str_replace_space k) val c"
        by (auto simp: process_line_def then_do_Inr_iff)
      from key have "map_of c' ''DEV_ID'' = map_of c ''DEV_ID''"
        by (simp add: c' map_of_dict_set)
      with assms(1) False show ?thesis
        by (simp add: d' ids has_id_def open_id_def c' dict_set_not_empty)
    qed
  qed
qed

lemma parse_keys:
  assumes "has_id c" and "list_all (\<lambda>l. \<not> reserved_key_line l) ls"
    and "then_do (process_lines (d, c) ls) (\<lambda>st. flush (fst st) (snd st)) = Inr r"
  shows "map fst r = foldl add_key (map fst d) (open_id c @ map VInt (declared_ids ls))"
  using assms
proof (induction ls arbitrary: d c)
  case Nil
  from flush_keys [OF Nil(1), of d] Nil(3) show ?case
    by (simp add: declared_ids_def List.map_filter_simps)
next
  case (Cons l ls)
  from Cons.prems(3) obtain d1 c1 where
    step: "process_line (d, c) l = Inr (d1, c1)"
    and rest: "then_do (process_lines (d1, c1) ls) (\<lambda>st. flush (fst st) (snd st)) = Inr r"
    by (auto split: sum.splits)
  from Cons.prems(2) have nr: "\<not> reserved_key_line l"
    and nrs: "list_all (\<lambda>l. \<not> reserved_key_line l) ls"
    by simp_all
  from process_line_step [OF Cons.prems(1) nr step, of ls]
  have inv: "has_id c1"
    and keys: "foldl add_key (map fst d1) (open_id c1 @ map VInt (declared_ids ls))
           = foldl add_key (map fst d) (open_id c @ map VInt (declared_ids (l # ls)))"
    by simp_all
  from Cons.IH [OF inv nrs rest] keys show ?case by simp
qed

lemma well_formed_no_reserved:
  "well_formed ls \<Longrightarrow> list_all (\<lambda>l. \<not> reserved_key_line l) ls"
  by (induction ls)
     (auto simp: well_formed_def line_ok_def reserved_key_line_def split: option.splits)

lemma not_isl_iff: "\<not> isl x \<longleftrightarrow> (\<exists>v. x = Inr v)"
  by (cases x) auto

lemma process_line_ok:
  assumes "has_id c" and "line_ok l"
  shows "\<exists>d' c'. process_line (d, c) l = Inr (d', c')"
proof (cases "dev_id_match l")
  case (Some g)
  with assms(2) obtain n where "py_int g = Inr n"
    by (auto simp: line_ok_def not_isl_iff)
  moreover from flush_keys [OF assms(1), of d] obtain d' where "flush d c = Inr d'" by blast
  ultimately show ?thesis using Some by (simp add: process_line_def)
next
  case None
  with assms(2) show ?thesis
    by (cases "property_match l"; cases "c = []")
       (auto simp: process_line_def line_ok_def not_isl_iff)
qed

lemma parse_succeeds:
  assumes "has_id c" and "well_formed ls"
  shows "\<exists>r. then_do (process_lines (d, c) ls) (\<lambda>st. flush (fst st) (snd st)) = Inr r"
  using assms
proof (induction ls arbitrary: d c)
  case Nil
  from flush_keys [OF Nil(1), of d] show ?case by auto
next
  case (Cons l ls)
  from Cons.prems(2) have ok: "line_ok l" and oks: "well_formed ls"
    by (simp_all add: well_formed_def)
  from process_line_ok [OF Cons.prems(1) ok, of d] obtain d1 c1 where
    step: "process_line (d, c) l = Inr (d1, c1)" by blast
  from well_formed_no_reserved [OF Cons.prems(2)] have "\<not> reserved_key_line l" by simp
  from process_line_step [OF Cons.prems(1) this step, of "[]"] have "has_id c1" by simp
  from Cons.IH [OF this oks, of d1] step show ?case by simp
qed

text \<open>
  C4. A text is well formed when every device-boundary line has digits that \<^verbatim>\<open>int\<close>
  reads, and every property line has a key other than the reserved key and a value that
  passes the coercion of its key. For a well-formed text whose N device blocks declare
  pairwise distinct ids, the parse succeeds and the output map has exactly N entries,
  keyed by the declared ids in the order of the blocks.
\<close>

theorem distinct_ids_give_one_entry_each:
  assumes "well_formed ls" and "distinct (declared_ids ls)"
  shows "\<exists>devices. parse_lines ls = Inr devices
           \<and> map fst devices = map VInt (declared_ids ls)
           \<and> length devices = length (declared_ids ls)"
proof -
  have inv: "has_id []" by (simp add: has_id_def)
  from parse_succeeds [OF inv assms(1), of "[]"] obtain r where
    r: "parse_lines ls = Inr r" by (auto simp: parse_lines_def)
  from parse_keys [OF inv well_formed_no_reserved [OF assms(1)], of "[]" r] r
  have "map fst r = foldl add_key [] (map VInt (declared_ids ls))"
    by (simp add: parse_lines_def open_id_def)
  also from assms(2) have "\<dots> = map VInt (declared_ids ls)"
    by (simp add: foldl_add_key_distinct distinct_map inj_on_def)
  finally have keys: "map fst r = map VInt (declared_ids ls)" .
  then have "length r = length (declared_ids ls)"
    by (metis length_map)
  with r keys show ?thesis by simp
qed

theorem distinct_ids_give_one_entry_each_witness:
  "\<exists>devices.
     parse_lines [''Driver : 1.2'', ''DEV ID 1'', ''  Total Size : 8 MiB'', ''DEV ID 0'',
                  ''  GCU Temp : 40 C''] = Inr devices
     \<and> map fst devices = [VInt 1, VInt 0] \<and> length devices = 2"
proof -
  let ?ls = "[''Driver : 1.2'', ''DEV ID 1'', ''  Total Size : 8 MiB'', ''DEV ID 0'',
              ''  GCU Temp : 40 C'']"
  have wf: "well_formed ?ls"
    by code_simp
  have ids: "declared_ids ?ls = [1, 0]"
    by code_simp
  then have "distinct (declared_ids ?ls)"
    by simp
  from distinct_ids_give_one_entry_each [OF wf this] show ?thesis
    by (simp add: ids eval_nat_numeral)
qed

lemma process_lines_has_id:
  assumes "has_id c" and "list_all (\<lambda>l. \<not> reserved_key_line l) ls"
    and "process_lines (d, c) ls = Inr (d', c')"
  shows "has_id c'"
  using assms
proof (induction ls arbitrary: d c)
  case Nil
  then show ?case by simp
next
  case (Cons l ls)
  from Cons.prems(3) obtain d1 c1 where
    step: "process_line (d, c) l = Inr (d1, c1)"
    and rest: "process_lines (d1, c1) ls = Inr (d', c')"
    by (auto split: sum.splits)
  from Cons.prems(2) have nr: "\<not> reserved_key_line l"
    and nrs: "list_all (\<lambda>l. \<not> reserved_key_line l) ls"
    by simp_all
  from process_line_step [OF Cons.prems(1) nr step, of "[]"] have "has_id c1" by simp
  from Cons.IH [OF this nrs rest] show ?case .
qed

lemma block_line:
  assumes "dev_id_match l = None"
  shows "process_line (d, c) l =
           (case process_line ([], c) l of Inl e \<Rightarrow> Inl e | Inr st \<Rightarrow> Inr (d, snd st))"
    and "process_line ([], c) l = Inr st \<Longrightarrow> fst st = []"
proof -
  show "process_line (d, c) l =
           (case process_line ([], c) l of Inl e \<Rightarrow> Inl e | Inr st \<Rightarrow> Inr (d, snd st))"
  proof (cases "property_match l")
    case None
    with assms show ?thesis by (simp add: process_line_def)
  next
    case (Some kv)
    obtain k v where kv: "kv = (k, v)" by (cases kv)
    with assms Some show ?thesis
      by (cases "coerce (str_replace_space k) (VStr (str_strip v))")
         (simp_all add: process_line_def)
  qed
  show "fst st = []" if "process_line ([], c) l = Inr st"
    using that assms
    by (auto simp: process_line_def then_do_Inr_iff split: option.splits if_splits)
qed

lemma block_lines:
  assumes "list_all (\<lambda>l. dev_id_match l = None) body"
  shows "process_lines (d, c) body =
           (case process_lines ([], c) body of Inl e \<Rightarrow> Inl e | Inr st \<Rightarrow> Inr (d, snd st))
         \<and> (\<forall>st. process_lines ([], c) body = Inr st \<longrightarrow> fst st = [])"
  using assms
proof (induction body arbitrary: c)
  case Nil
  then show ?case by simp
next
  case (Cons l body)
  from Cons.prems have nb: "dev_id_match l = None"
    and nbs: "list_all (\<lambda>l. dev_id_match l = None) body"
    by simp_all
  show ?case
  proof (cases "process_line ([], c) l")
    case (Inl e)
    with block_line(1) [OF nb, of d c] show ?thesis by simp
  next
    case (Inr st)
    with block_line(2) [OF nb Inr] obtain c1 where st: "st = ([], c1)" by (cases st) auto
    with Inr block_line(1) [OF nb, of d c] have "process_line (d, c) l = Inr (d, c1)" by simp
    with Inr st Cons.IH [OF nbs, of c1] show ?thesis by simp
  qed
qed

lemma block_keeps_id:
  assumes "list_all (\<lambda>l. dev_id_match l = None) body"
    and "list_all (\<lambda>l. \<not> reserved_key_line l) body"
    and "process_lines (d, c) body = Inr (d', c')"
    and "map_of c ''DEV_ID'' = Some x"
  shows "map_of c' ''DEV_ID'' = Some x"
  using assms
proof (induction body arbitrary: c)
  case Nil
  then show ?case by simp
next
  case (Cons l body)
  from Cons.prems(3) obtain d1 c1 where
    step: "process_line (d, c) l = Inr (d1, c1)"
    and rest: "process_lines (d1, c1) body = Inr (d', c')"
    by (auto split: sum.splits)
  from Cons.prems(1,2) have nb: "dev_id_match l = None" and nr: "\<not> reserved_key_line l"
    by simp_all
  from block_line(1) [OF nb, of d c] step have d1: "d1 = d"
    by (auto split: sum.splits)
  from step nb nr Cons.prems(4) have "map_of c1 ''DEV_ID'' = Some x"
    by (auto simp: process_line_def reserved_key_line_def then_do_Inr_iff map_of_dict_set
             split: option.splits if_splits)
  with Cons.IH [of c1] Cons.prems(1,2) rest d1 show ?case by simp
qed

lemma entry_persists:
  assumes "map_of d (VInt n) = Some f"
    and "has_id c" and "map_of c ''DEV_ID'' \<noteq> Some (VInt n)"
    and "list_all (\<lambda>l. \<not> reserved_key_line l) ls"
    and "list_all (\<lambda>l. boundary_id l \<noteq> Some n) ls"
    and "then_do (process_lines (d, c) ls) (\<lambda>st. flush (fst st) (snd st)) = Inr r"
  shows "map_of r (VInt n) = Some f"
  using assms
proof (induction ls arbitrary: d c)
  case Nil
  then show ?case
    by (auto simp: flush_def get_field_def then_do_Inr_iff map_of_dict_set
             split: if_splits option.splits)
next
  case (Cons l ls)
  from Cons.prems(6) obtain d1 c1 where
    step: "process_line (d, c) l = Inr (d1, c1)"
    and rest: "then_do (process_lines (d1, c1) ls) (\<lambda>st. flush (fst st) (snd st)) = Inr r"
    by (auto split: sum.splits)
  from Cons.prems(4,5) have nr: "\<not> reserved_key_line l" and other: "boundary_id l \<noteq> Some n"
    and nrs: "list_all (\<lambda>l. \<not> reserved_key_line l) ls"
    and others: "list_all (\<lambda>l. boundary_id l \<noteq> Some n) ls"
    by simp_all
  from process_line_step [OF Cons.prems(2) nr step, of "[]"] have inv: "has_id c1" by simp
  have "map_of d1 (VInt n) = Some f \<and> map_of c1 ''DEV_ID'' \<noteq> Some (VInt n)"
  proof (cases "dev_id_match l")
    case (Some g)
    from step Some obtain m where d1: "flush d c = Inr d1" and m: "py_int g = Inr m"
      and c1: "c1 = [(''DEV_ID'', VInt m)]"
      by (auto simp: process_line_def then_do_Inr_iff)
    from Some m other have "m \<noteq> n" by (simp add: boundary_id_def)
    moreover from d1 Cons.prems(1,3) have "map_of d1 (VInt n) = Some f"
      by (auto simp: flush_def get_field_def then_do_Inr_iff map_of_dict_set
               split: if_splits option.splits)
    ultimately show ?thesis by (simp add: c1)
  next
    case None
    with step nr Cons.prems(1,3) show ?thesis
      by (auto simp: process_line_def reserved_key_line_def then_do_Inr_iff map_of_dict_set
               split: option.splits if_splits)
  qed
  with Cons.IH [OF _ inv _ nrs others rest] show ?case by blast
qed

lemma boundary_id_SomeD:
  "boundary_id b = Some n \<Longrightarrow> \<exists>g. dev_id_match b = Some g \<and> py_int g = Inr n"
  by (auto simp: boundary_id_def split: option.splits sum.splits)

text \<open>
  C10, as amended. Take a text whose parse succeeds and in which no property line has
  the reserved key. Then the output map has exactly one entry for each distinct declared
  id and no other entry, and for a block that is the last to declare its id, the entry of
  that id holds exactly the fields that the parser collects from that block alone (its
  boundary line and the lines up to the next boundary line).
\<close>

theorem last_block_of_an_id_wins:
  assumes "parse_lines (pre @ b # rest) = Inr devices"
    and "list_all (\<lambda>l. \<not> reserved_key_line l) (pre @ b # rest)"
    and "boundary_id b = Some n"
    and "list_all (\<lambda>l. boundary_id l \<noteq> Some n) rest"
  shows "distinct (map fst devices)
         \<and> set (map fst devices) = VInt ` set (declared_ids (pre @ b # rest))
         \<and> (\<exists>fields.
               process_lines ([], []) (b # takeWhile (\<lambda>l. dev_id_match l = None) rest)
                 = Inr ([], fields)
               \<and> map_of devices (VInt n) = Some fields)"
proof -
  let ?finish = "\<lambda>st :: category_map \<times> fields. flush (fst st) (snd st)"
  let ?body = "takeWhile (\<lambda>l. dev_id_match l = None) rest"
  let ?post = "dropWhile (\<lambda>l. dev_id_match l = None) rest"
  have closed: "has_id []" by (simp add: has_id_def)
  from parse_keys [OF closed assms(2), of "[]" devices] assms(1)
  have keys: "map fst devices = foldl add_key [] (map VInt (declared_ids (pre @ b # rest)))"
    by (simp add: parse_lines_def open_id_def)
  have part1: "distinct (map fst devices)"
    by (simp add: keys distinct_foldl_add_key)
  have part2: "set (map fst devices) = VInt ` set (declared_ids (pre @ b # rest))"
    by (simp add: keys set_foldl_add_key)
  from assms(2) have nr_pre: "list_all (\<lambda>l. \<not> reserved_key_line l) pre"
    and nr_rest: "list_all (\<lambda>l. \<not> reserved_key_line l) rest"
    by simp_all
  from nr_rest have nr_body: "list_all (\<lambda>l. \<not> reserved_key_line l) ?body"
    and nr_post: "list_all (\<lambda>l. \<not> reserved_key_line l) ?post"
    by (auto simp: list_all_iff dest: set_takeWhileD set_dropWhileD)
  from assms(4) have other_post: "list_all (\<lambda>l. boundary_id l \<noteq> Some n) ?post"
    by (auto simp: list_all_iff dest: set_dropWhileD)
  have nb_body: "list_all (\<lambda>l. dev_id_match l = None) ?body"
    by (auto simp: list_all_iff dest: set_takeWhileD)
  from boundary_id_SomeD [OF assms(3)] obtain g where
    g: "dev_id_match b = Some g" "py_int g = Inr n" by blast
  let ?c1 = "[(''DEV_ID'', VInt n)]"
  from assms(1) obtain d0 c0 where
    s0: "process_lines ([], []) pre = Inr (d0, c0)"
    and r0: "then_do (process_lines (d0, c0) (b # rest)) ?finish = Inr devices"
    by (auto simp: parse_lines_def process_lines_append split: sum.splits)
  from r0 g obtain d1 where
    s1: "process_line (d0, c0) b = Inr (d1, ?c1)"
    and r1: "then_do (process_lines (d1, ?c1) rest) ?finish = Inr devices"
    by (auto simp: process_line_def then_do_Inr_iff split: sum.splits)
  have "process_lines (d1, ?c1) rest =
          (case process_lines (d1, ?c1) ?body of
             Inl e \<Rightarrow> Inl e
           | Inr st \<Rightarrow> process_lines st ?post)"
    using process_lines_append [of "(d1, ?c1)" ?body ?post] by simp
  with r1 obtain d2 fields where
    s2: "process_lines (d1, ?c1) ?body = Inr (d2, fields)"
    and r2: "then_do (process_lines (d2, fields) ?post) ?finish = Inr devices"
    by (auto split: sum.splits)
  from block_lines [OF nb_body, of d1 ?c1] s2 have
    d2: "d2 = d1" and block: "process_lines ([], ?c1) ?body = Inr ([], fields)"
    by (auto split: sum.splits)
  from g have first: "process_line ([], []) b = Inr ([], ?c1)"
    by (simp add: process_line_def flush_def)
  from block_keeps_id [OF nb_body nr_body s2] have id: "map_of fields ''DEV_ID'' = Some (VInt n)"
    by simp
  then have open_block: "fields \<noteq> []" by auto
  have "map_of devices (VInt n) = Some fields"
  proof (cases ?post)
    case Nil
    with r2 id open_block show ?thesis
      by (auto simp: flush_def get_field_def map_of_dict_set)
  next
    case (Cons b2 post')
    then have "?post \<noteq> []" by simp
    from hd_dropWhile [OF this] Cons have "dev_id_match b2 \<noteq> None" by simp
    then obtain g2 where g2: "dev_id_match b2 = Some g2" by auto
    from r2 Cons g2 obtain d3 m where
      d3: "flush d2 fields = Inr d3" and m: "py_int g2 = Inr m"
      and r3: "then_do (process_lines (d3, [(''DEV_ID'', VInt m)]) post') ?finish = Inr devices"
      by (auto simp: process_line_def then_do_Inr_iff split: sum.splits)
    from other_post Cons g2 m have "m \<noteq> n"
      by (auto simp: boundary_id_def)
    moreover from d3 id open_block have "map_of d3 (VInt n) = Some fields"
      by (auto simp: flush_def get_field_def map_of_dict_set)
    moreover have "has_id [(''DEV_ID'', VInt m)]" by (simp add: has_id_def)
    moreover from nr_post other_post Cons have
      "list_all (\<lambda>l. \<not> reserved_key_line l) post'"
      "list_all (\<lambda>l. boundary_id l \<noteq> Some n) post'"
      by simp_all
    ultimately show ?thesis
      using entry_persists [of d3 n fields "[(''DEV_ID'', VInt m)]" post' devices] r3
      by simp
  qed
  with first block part1 part2 show ?thesis by simp
qed

theorem last_block_of_an_id_wins_witness:
  "parse_lines ([''DEV ID 0'', ''Dev Name : first''] @ ''DEV ID 0'' # [''Dev Name : second'', ''DEV ID 1''])
     = Inr [(VInt 0, [(''DEV_ID'', VInt 0), (''Dev_Name'', VStr ''second'')]),
            (VInt 1, [(''DEV_ID'', VInt 1)])]
   \<and> (\<exists>fields.
         process_lines ([], []) [''DEV ID 0'', ''Dev Name : second''] = Inr ([], fields)
         \<and> map_of [(VInt 0, [(''DEV_ID'', VInt 0), (''Dev_Name'', VStr ''second'')]),
                   (VInt 1, [(''DEV_ID'', VInt 1)])] (VInt 0) = Some fields)"
proof -
  let ?pre = "[''DEV ID 0'', ''Dev Name : first'']"
  let ?rest = "[''Dev Name : second'', ''DEV ID 1'']"
  let ?devices = "[(VInt 0, [(''DEV_ID'', VInt 0), (''Dev_Name'', VStr ''second'')]),
                   (VInt 1, [(''DEV_ID'', VInt 1)])]"
  have parsed: "parse_lines (?pre @ ''DEV ID 0'' # ?rest) = Inr ?devices"
    by code_simp
  have free: "list_all (\<lambda>l. \<not> reserved_key_line l) (?pre @ ''DEV ID 0'' # ?rest)"
    by code_simp
  have declared: "boundary_id ''DEV ID 0'' = Some 0"
    by code_simp
  have last: "list_all (\<lambda>l. boundary_id l \<noteq> Some 0) ?rest"
    by code_simp
  have block: "takeWhile (\<lambda>l. dev_id_match l = None) ?rest = [''Dev Name : second'']"
    by code_simp
  from last_block_of_an_id_wins [OF parsed free declared last] parsed show ?thesis
    by (simp only: block)
qed

text \<open>
  The claim as written fails when a property line takes the reserved key: the second
  block below declares id 0 again, but is stored under the text "7", so that the entry of
  id 0 holds the fields of the first block, and the map has two entries for one declared
  id.
\<close>

theorem reserved_key_counterexample:
  "declared_ids [''DEV ID 0'', ''Dev Name : first'', ''DEV ID 0'', ''Dev Name : second'',
                 ''DEV ID : 7''] = [0, 0]
   \<and> parse_lines [''DEV ID 0'', ''Dev Name : first'', ''DEV ID 0'', ''Dev Name : second'',
                  ''DEV ID : 7'']
       = Inr [(VInt 0, [(''DEV_ID'', VInt 0), (''Dev_Name'', VStr ''first'')]),
              (VStr ''7'', [(''DEV_ID'', VStr ''7''), (''Dev_Name'', VStr ''second'')])]"
  by code_simp

subsection \<open>The record assembler\<close>

lemma get_entry_Inr_iff: "get_entry info key = Inr item \<longleftrightarrow> map_of info key = Some item"
  by (simp add: get_entry_def split: option.splits)

lemma get_field_Inr_iff: "get_field item f = Inr v \<longleftrightarrow> map_of item f = Some v"
  by (simp add: get_field_def split: option.splits)

lemma make_device_needs_entries:
  assumes "make_device key item memory_info temperature_info usage_info = Inr device"
  shows "map_of memory_info key \<noteq> None \<and> map_of temperature_info key \<noteq> None
         \<and> map_of usage_info key \<noteq> None"
  using assms by (auto simp: make_device_def then_do_Inr_iff get_entry_Inr_iff)

lemma assemble_needs_entries:
  assumes "assemble device_info memory_info temperature_info usage_info devices = Inr result"
    and "map_of device_info key = Some item"
  shows "map_of memory_info key \<noteq> None \<and> map_of temperature_info key \<noteq> None
         \<and> map_of usage_info key \<noteq> None"
  using assms
proof (induction device_info arbitrary: devices)
  case Nil
  then show ?case by simp
next
  case (Cons p rest)
  from Cons.prems(1) obtain device where
    made: "make_device (fst p) (snd p) memory_info temperature_info usage_info = Inr device"
    and more: "assemble rest memory_info temperature_info usage_info (devices @ [device]) = Inr result"
    by (auto split: sum.splits)
  show ?case
  proof (cases "fst p = key")
    case True
    with make_device_needs_entries [OF made] show ?thesis by simp
  next
    case False
    with Cons.prems(2) have "map_of rest key = Some item" by (cases p) auto
    from Cons.IH [OF more this] show ?thesis .
  qed
qed

lemma assemble_append:
  "assemble (xs @ ys) m t u devices =
     (case assemble xs m t u devices of Inl e \<Rightarrow> Inl e | Inr ds \<Rightarrow> assemble ys m t u ds)"
  by (induction xs arbitrary: devices) (auto split: sum.splits)

lemma make_device_miss:
  assumes "map_of item ''DEV_ID'' \<noteq> None" and "map_of item ''Dev_Name'' \<noteq> None"
    and "map_of item ''Dev_UUID'' \<noteq> None"
    and "has_fields usage_info key [''GCU_Usage'']"
    and "has_fields memory_info key [''Total_Size'', ''Used_Size'']"
    and "map_of memory_info key = None \<or> map_of temperature_info key = None
         \<or> map_of usage_info key = None"
  shows "make_device key item memory_info temperature_info usage_info = Inl (KeyError key)"
proof -
  from assms(1-3) obtain a b c where item:
    "get_field item ''DEV_ID'' = Inr a" "get_field item ''Dev_Name'' = Inr b"
    "get_field item ''Dev_UUID'' = Inr c"
    by (auto simp: get_field_Inr_iff)
  show ?thesis
  proof (cases "map_of usage_info key")
    case None
    with item show ?thesis by (simp add: make_device_def get_entry_def)
  next
    case u: (Some u)
    with assms(4) obtain x where x: "get_field u ''GCU_Usage'' = Inr x"
      by (auto simp: has_fields_def get_field_Inr_iff)
    show ?thesis
    proof (cases "map_of memory_info key")
      case None
      with item u x show ?thesis by (simp add: make_device_def get_entry_def)
    next
      case m: (Some m)
      with assms(5) obtain y z where yz:
        "get_field m ''Total_Size'' = Inr y" "get_field m ''Used_Size'' = Inr z"
        by (auto simp: has_fields_def get_field_Inr_iff)
      from assms(6) u m have "map_of temperature_info key = None" by simp
      with item u x m yz show ?thesis by (simp add: make_device_def get_entry_def)
    qed
  qed
qed

text \<open>
  C2, as amended. When the four category queries succeed and some device id of the
  identity map is absent from the memory, temperature or usage map, the gather is an
  error: no list of records, partial or not, is returned. If moreover the devices before
  that id assemble, its identity block has id, name and uuid, and the usage and memory
  entries of the id (where present) have their fields, then the error is the
  \<^verbatim>\<open>KeyError\<close> of the failed lookup, which carries the missing id and nothing else: it
  does not name the category.
\<close>

theorem lookup_miss_aborts_gather:
  assumes "get_gpu_info run [''efsmi'', ''-q'', ''-d'', ''DEVICE''] = Inr device_info"
    and "get_gpu_info run [''efsmi'', ''-q'', ''-d'', ''MEMORY''] = Inr memory_info"
    and "get_gpu_info run [''efsmi'', ''-q'', ''-d'', ''TEMP''] = Inr temperature_info"
    and "get_gpu_info run [''efsmi'', ''-q'', ''-d'', ''USAGE''] = Inr usage_info"
    and "device_info = before @ (key, item) # after"
    and "map_of memory_info key = None \<or> map_of temperature_info key = None
         \<or> map_of usage_info key = None"
  shows "(\<exists>e. gather_gpu_info run = Inl e)
         \<and> (\<not> isl (assemble before memory_info temperature_info usage_info [])
              \<and> map_of item ''DEV_ID'' \<noteq> None \<and> map_of item ''Dev_Name'' \<noteq> None
              \<and> map_of item ''Dev_UUID'' \<noteq> None
              \<and> has_fields usage_info key [''GCU_Usage'']
              \<and> has_fields memory_info key [''Total_Size'', ''Used_Size'']
            \<longrightarrow> gather_gpu_info run = Inl (KeyError key))"
proof -
  have gather: "gather_gpu_info run = assemble device_info memory_info temperature_info usage_info []"
    using assms(1-4) by (simp add: gather_gpu_info_def)
  have "\<exists>e. assemble device_info memory_info temperature_info usage_info [] = Inl e"
  proof (cases "assemble before memory_info temperature_info usage_info []")
    case (Inl e)
    then show ?thesis by (simp add: assms(5) assemble_append)
  next
    case (Inr ds)
    from assms(6) make_device_needs_entries [of key item memory_info temperature_info usage_info]
    obtain e where "make_device key item memory_info temperature_info usage_info = Inl e"
      by (cases "make_device key item memory_info temperature_info usage_info") auto
    with Inr show ?thesis by (simp add: assms(5) assemble_append)
  qed
  moreover have "assemble device_info memory_info temperature_info usage_info [] = Inl (KeyError key)"
    if "\<not> isl (assemble before memory_info temperature_info usage_info [])"
      and "map_of item ''DEV_ID'' \<noteq> None" and "map_of item ''Dev_Name'' \<noteq> None"
      and "map_of item ''Dev_UUID'' \<noteq> None"
      and "has_fields usage_info key [''GCU_Usage'']"
      and "has_fields memory_info key [''Total_Size'', ''Used_Size'']"
  proof -
    from that(1) obtain ds where
      "assemble before memory_info temperature_info usage_info [] = Inr ds"
      by (auto simp: not_isl_iff)
    with make_device_miss [OF that(2-6) assms(6)] show ?thesis
      by (simp add: assms(5) assemble_append)
  qed
  ultimately show ?thesis by (simp add: gather)
qed

theorem lookup_miss_aborts_gather_witness:
  "gather_gpu_info (scenario_without ''TEMP'') = Inl (KeyError (VInt 0))"
proof -
  let ?run = "scenario_without ''TEMP''"
  let ?item = "[(''DEV_ID'', VInt 0), (''Dev_Name'', VStr ''GCU0''), (''Dev_UUID'', VStr ''abc'')]"
  let ?memory = "[(VInt 0, [(''DEV_ID'', VInt 0), (''Total_Size'', VInt 34359738368),
                            (''Used_Size'', VInt 1073741824)])]"
  let ?temperature = "[(VInt 1, [(''DEV_ID'', VInt 1), (''Dev_Name'', VStr ''GCU1''),
                                 (''Dev_UUID'', VStr ''def''), (''Total_Size'', VInt 34359738368),
                                 (''Used_Size'', VInt 1073741824),
                                 (''GCU_Temp'', VFloat (Finite 45)),
                                 (''GCU_Usage'', VFloat (Finite 12))])]"
  let ?usage = "[(VInt 0, [(''DEV_ID'', VInt 0), (''GCU_Usage'', VFloat (Finite 12))])]"
  have q1: "get_gpu_info ?run [''efsmi'', ''-q'', ''-d'', ''DEVICE''] = Inr [(VInt 0, ?item)]"
    by code_simp
  have q2: "get_gpu_info ?run [''efsmi'', ''-q'', ''-d'', ''MEMORY''] = Inr ?memory"
    by code_simp
  have q3: "get_gpu_info ?run [''efsmi'', ''-q'', ''-d'', ''TEMP''] = Inr ?temperature"
    by code_simp
  have q4: "get_gpu_info ?run [''efsmi'', ''-q'', ''-d'', ''USAGE''] = Inr ?usage"
    by code_simp
  have place: "[(VInt 0, ?item)] = [] @ (VInt 0, ?item) # []"
    by simp
  have miss: "map_of ?memory (VInt 0) = None \<or> map_of ?temperature (VInt 0) = None
              \<or> map_of ?usage (VInt 0) = None"
    by simp
  from lookup_miss_aborts_gather [OF q1 q2 q3 q4 place miss] show ?thesis
    by (simp add: has_fields_def)
qed

text \<open>
  The claim as written fails in what the error names: the same error is raised whether
  the id is missing from the memory, the temperature or the usage map.
\<close>

theorem same_error_for_every_category_counterexample:
  "gather_gpu_info (scenario_without ''MEMORY'') = Inl (KeyError (VInt 0))
   \<and> gather_gpu_info (scenario_without ''TEMP'') = Inl (KeyError (VInt 0))
   \<and> gather_gpu_info (scenario_without ''USAGE'') = Inl (KeyError (VInt 0))"
  by code_simp

subsection \<open>The matchers and their patterns\<close>

text \<open>
  The matcher of device-boundary lines accepts the lines that start with "DEV ID " and a
  digit, and returns the longest run of digits there.
\<close>

lemma dropWhile_stops: "case dropWhile P xs of [] \<Rightarrow> True | x # ys \<Rightarrow> \<not> P x"
  by (induction xs) auto

lemma dev_id_match_iff:
  "dev_id_match line = Some ds \<longleftrightarrow>
     (\<exists>rest. line = ''DEV ID '' @ ds @ rest \<and> ds \<noteq> [] \<and> list_all is_digit ds
        \<and> (case rest of [] \<Rightarrow> True | x # xs \<Rightarrow> \<not> is_digit x))"
  (is "?lhs \<longleftrightarrow> ?rhs")
proof
  assume ?lhs
  then have start: "take 7 line = ''DEV ID ''" and ds: "ds = takeWhile is_digit (drop 7 line)"
    and some: "ds \<noteq> []"
    by (auto simp: dev_id_match_def startswith_def Let_def eval_nat_numeral split: if_splits)
  let ?rest = "dropWhile is_digit (drop 7 line)"
  have "line = take 7 line @ drop 7 line" by simp
  also have "drop 7 line = ds @ ?rest" by (simp add: ds)
  finally have "line = ''DEV ID '' @ ds @ ?rest" by (simp only: start)
  moreover have "list_all is_digit ds"
    by (auto simp: ds list_all_iff dest: set_takeWhileD)
  moreover have "case ?rest of [] \<Rightarrow> True | x # xs \<Rightarrow> \<not> is_digit x"
    by (rule dropWhile_stops)
  ultimately show ?rhs using some by blast
next
  assume ?rhs
  then obtain rest where line: "line = ''DEV ID '' @ ds @ rest" and some: "ds \<noteq> []"
    and digits: "list_all is_digit ds"
    and stop: "case rest of [] \<Rightarrow> True | x # xs \<Rightarrow> \<not> is_digit x"
    by blast
  from digits stop have "takeWhile is_digit (ds @ rest) = ds"
    by (induction ds) (auto split: list.splits)
  with some show ?lhs
    by (simp add: dev_id_match_def startswith_def line)
qed

lemma space_not_word: "is_space c \<Longrightarrow> \<not> is_word c"
  by (auto simp: is_space_def is_word_def Let_def)

lemma colon_plain: "\<not> is_space (CHR '':'') \<and> \<not> is_word (CHR '':'')"
  by (simp add: is_space_def is_word_def)

lemma more_words_Nil: "more_words [] = ([], [])"
  by (subst more_words.simps) simp

lemma more_words_single: "more_words [c] = ([], [c])"
  by (subst more_words.simps) simp

lemma more_words_two:
  "more_words (c # d # r) =
     (if is_space c \<and> is_word d
      then (case more_words (dropWhile is_word r) of
              (k, rest) \<Rightarrow> (c # d # takeWhile is_word r @ k, rest))
      else ([], c # d # r))"
  by (subst more_words.simps) simp

declare more_words.simps [simp del]

lemma takeWhile_word_run:
  assumes "list_all is_word w" and "case t of [] \<Rightarrow> True | x # xs \<Rightarrow> \<not> is_word x"
  shows "takeWhile is_word (w @ t) = w" and "dropWhile is_word (w @ t) = t"
  using assms by (induction w) (auto split: list.splits)

lemma dropWhile_space_run:
  assumes "list_all is_space a" and "case t of [] \<Rightarrow> True | x # xs \<Rightarrow> \<not> is_space x"
  shows "dropWhile is_space (a @ t) = t"
  using assms by (induction a) (auto split: list.splits)

lemma more_words_sound:
  "more_words s = (k, rest) \<Longrightarrow>
     s = k @ rest \<and> word_groups k
     \<and> (case rest of c # d # r \<Rightarrow> \<not> (is_space c \<and> is_word d) | _ \<Rightarrow> True)"
proof (induction s arbitrary: k rest rule: more_words.induct)
  case (1 s)
  show ?case
  proof (cases s)
    case Nil
    with 1(2) show ?thesis by (simp add: more_words_Nil word_groups.none)
  next
    case (Cons c s')
    show ?thesis
    proof (cases s')
      case Nil
      with Cons 1(2) show ?thesis by (auto simp: more_words_single word_groups.none)
    next
      case (Cons d r)
      note s = \<open>s = c # s'\<close> Cons
      show ?thesis
      proof (cases "is_space c \<and> is_word d")
        case False
        with s 1(2) show ?thesis by (auto simp: more_words_two word_groups.none)
      next
        case True
        obtain k' rest' where rec: "more_words (dropWhile is_word r) = (k', rest')"
          by (cases "more_words (dropWhile is_word r)")
        from True have sp: "is_space c" and wd: "is_word d" by simp_all
        from "1.IH" [OF s(1) s(2) True rec]
        have ih: "dropWhile is_word r = k' @ rest'" "word_groups k'"
          "case rest' of c # d # r \<Rightarrow> \<not> (is_space c \<and> is_word d) | _ \<Rightarrow> True"
          by simp_all
        from 1(2) s True rec have k: "k = c # d # takeWhile is_word r @ k'" and r: "rest = rest'"
          by (simp_all add: more_words_two)
        have "r = takeWhile is_word r @ dropWhile is_word r" by simp
        with ih(1) have "r = takeWhile is_word r @ k' @ rest'" by simp
        then have "s = k @ rest" using s k r by simp
        moreover have "word_groups (c # (d # takeWhile is_word r) @ k')"
        proof (rule word_groups.more [OF sp _ _ ih(2)])
          show "d # takeWhile is_word r \<noteq> []" by simp
          show "list_all is_word (d # takeWhile is_word r)"
            using wd by (auto simp: list_all_iff dest: set_takeWhileD)
        qed
        ultimately show ?thesis using ih(3) k r by simp
      qed
    qed
  qed
qed

lemma more_words_complete:
  assumes "word_groups g"
    and "case t of [] \<Rightarrow> True | x # xs \<Rightarrow> \<not> is_word x"
    and "case t of c # d # r \<Rightarrow> \<not> (is_space c \<and> is_word d) | _ \<Rightarrow> True"
  shows "more_words (g @ t) = (g, t)"
  using assms
proof (induction g rule: word_groups.induct)
  case none
  then show ?case
    by (cases t; cases "tl t") (auto simp: more_words_Nil more_words_single more_words_two)
next
  case (more c w g)
  from more(2) obtain d w' where w: "w = d # w'" by (cases w) auto
  with more(3) have wd: "is_word d" and ws: "list_all is_word w'" by simp_all
  have next_plain: "case g @ t of [] \<Rightarrow> True | x # xs \<Rightarrow> \<not> is_word x"
  proof (cases g)
    case Nil
    with more(6) show ?thesis by simp
  next
    case (Cons x xs)
    with more(4) have "is_space x" by (auto elim: word_groups.cases)
    with Cons show ?thesis by (simp add: space_not_word)
  qed
  from takeWhile_word_run [OF ws next_plain] more.IH [OF more(6,7)] more(1) wd
  show ?case
    by (simp add: w more_words_two)
qed

text \<open>
  The matcher of property lines computes the one way in which a line is read by the
  pattern with every repetition as long as it can be: leading whitespace, a key of words
  that single whitespace characters separate, whitespace, the first colon, whitespace,
  and a value that does not start with whitespace.
\<close>

lemma property_match_iff:
  "property_match line = Some (k, v) \<longleftrightarrow>
     (\<exists>a w g b c.
        line = a @ k @ b @ CHR '':'' # c @ v
        \<and> list_all is_space a \<and> list_all is_space b \<and> list_all is_space c
        \<and> k = w @ g \<and> w \<noteq> [] \<and> list_all is_word w \<and> word_groups g
        \<and> (case v of [] \<Rightarrow> True | x # xs \<Rightarrow> \<not> is_space x))"
  (is "?lhs \<longleftrightarrow> ?rhs")
proof
  assume ?lhs
  let ?a = "takeWhile is_space line"
  let ?s1 = "dropWhile is_space line"
  let ?w = "takeWhile is_word ?s1"
  obtain g s2 where mw: "more_words (dropWhile is_word ?s1) = (g, s2)"
    by (cases "more_words (dropWhile is_word ?s1)")
  from \<open>?lhs\<close> mw have w: "?w \<noteq> []"
    by (auto simp: property_match_def Let_def split: if_splits)
  from \<open>?lhs\<close> mw w obtain s3 where
    s3: "dropWhile is_space s2 = CHR '':'' # s3" and k: "k = ?w @ g" and v: "v = dropWhile is_space s3"
    by (auto simp: property_match_def Let_def split: if_splits list.splits)
  from more_words_sound [OF mw] have split: "dropWhile is_word ?s1 = g @ s2" and g: "word_groups g"
    by simp_all
  have "line = ?a @ ?s1" by simp
  also have "?s1 = ?w @ dropWhile is_word ?s1" by simp
  also note split
  also have "s2 = takeWhile is_space s2 @ dropWhile is_space s2" by simp
  also note s3
  also have "s3 = takeWhile is_space s3 @ dropWhile is_space s3" by simp
  finally have "line = ?a @ k @ takeWhile is_space s2 @ CHR '':'' # takeWhile is_space s3 @ v"
    by (simp add: k v)
  moreover have "list_all is_space ?a" "list_all is_space (takeWhile is_space s2)"
    "list_all is_space (takeWhile is_space s3)" "list_all is_word ?w"
    by (auto simp: list_all_iff dest: set_takeWhileD)
  moreover have "case v of [] \<Rightarrow> True | x # xs \<Rightarrow> \<not> is_space x"
    unfolding v by (rule dropWhile_stops)
  ultimately show ?rhs using k w g by blast
next
  assume ?rhs
  then obtain a w g b c where
    line: "line = a @ k @ b @ CHR '':'' # c @ v"
    and sp: "list_all is_space a" "list_all is_space b" "list_all is_space c"
    and k: "k = w @ g" and w: "w \<noteq> []" "list_all is_word w" and g: "word_groups g"
    and v: "case v of [] \<Rightarrow> True | x # xs \<Rightarrow> \<not> is_space x"
    by blast
  let ?t = "b @ CHR '':'' # c @ v"
  from w obtain d w' where wd: "w = d # w'" "is_word d" by (cases w) auto
  then have "\<not> is_space d" using space_not_word by blast
  with wd have s1: "dropWhile is_space line = w @ g @ ?t"
    using dropWhile_space_run [OF sp(1), of "w @ g @ ?t"] by (simp add: line k)
  have t_plain: "case ?t of [] \<Rightarrow> True | x # xs \<Rightarrow> \<not> is_word x"
    using sp(2) by (cases b) (auto simp: colon_plain space_not_word)
  have t_pair: "case ?t of c # d # r \<Rightarrow> \<not> (is_space c \<and> is_word d) | _ \<Rightarrow> True"
    using sp(2) by (cases b; cases "tl b") (auto simp: colon_plain space_not_word split: list.splits)
  have gt_plain: "case g @ ?t of [] \<Rightarrow> True | x # xs \<Rightarrow> \<not> is_word x"
  proof (cases g)
    case Nil
    with t_plain show ?thesis by simp
  next
    case (Cons x xs)
    with g have "is_space x" by (auto elim: word_groups.cases)
    with Cons show ?thesis by (simp add: space_not_word)
  qed
  from takeWhile_word_run [OF w(2) gt_plain]
  have tw: "takeWhile is_word (w @ g @ ?t) = w" and dw: "dropWhile is_word (w @ g @ ?t) = g @ ?t"
    by simp_all
  have mw: "more_words (g @ ?t) = (g, ?t)"
    by (rule more_words_complete [OF g t_plain t_pair])
  have colon: "dropWhile is_space ?t = CHR '':'' # c @ v"
    using dropWhile_space_run [OF sp(2), of "CHR '':'' # c @ v"] by (simp add: colon_plain)
  have rest_value: "dropWhile is_space (c @ v) = v"
    by (rule dropWhile_space_run [OF sp(3) v])
  show ?lhs
    using w(1) by (simp add: property_match_def s1 tw dw mw colon rest_value k)
qed

end
